theory Spec2Isabelle
  imports Main "HOL-Library.AList" "HOL-Library.Char_ord" "HOL-Library.List_Lexorder"
begin

section \<open>Data model (graph.go)\<close>

text \<open>
  A \<^verbatim>\<open>*Package\<close> is a pointer. Every \<^verbatim>\<open>Package\<close> object of a graph is allocated in
  \<^verbatim>\<open>addPackage\<close>, once per ID, and stored at once under \<^verbatim>\<open>dg.packageMap[pkg.ID]\<close>; so
  \<^verbatim>\<open>packageMap\<close> is the store of the model and a pointer is the key of its object there.
  A pointer that is no key of the store stands for \<^verbatim>\<open>nil\<close>: reading through it is the
  run-time panic of Go.

  Go maps that the code iterates are association lists updated with \<open>AList.update\<close>
  (one key, one entry); the order of a list stands for one of the iteration orders that
  Go may choose.
\<close>

type_synonym ref = string

datatype error =
    ErrUnknownPackage
  | LoadingPackages string
  | NilPointerDereference

text \<open>
  \<^verbatim>\<open>packages.Package\<close> of golang.org/x/tools, as far as \<^verbatim>\<open>addPackage\<close> reads it. The
  loop over \<^verbatim>\<open>pkg.Imports\<close> ignores the keys of that map, so the imports are the list of
  its values. A package met again (by another import chain, or on a cycle) is returned
  from \<^verbatim>\<open>packageMap\<close> before its imports are read, so a finite tree whose nodes carry IDs
  describes every walk that \<^verbatim>\<open>addPackage\<close> makes.
\<close>

datatype packages_Package =
  RawPackage (raw_ID: string) (raw_PkgPath: string)
    (GoFiles: "string list") (CompiledGoFiles: "string list")
    (IgnoredFiles: "string list") (OtherFiles: "string list")
    (Imports: "packages_Package list")

record Package =
  ID :: string
  PkgPath :: string
  Dependencies :: "(string \<times> ref) list"
  Dependents :: "(string \<times> ref) list"

record DependencyGraph =
  packageMap :: "(string \<times> Package) list"
  packagePathMap :: "(string \<times> ref list) list"
  fileMap :: "(string \<times> ref) list"
  dirMap :: "(string \<times> (string \<times> ref) list) list"

definition deref :: "DependencyGraph \<Rightarrow> ref \<Rightarrow> Package option" where
  "deref g r = map_of (packageMap g) r"

section \<open>BuildDependencyGraph\<close>

text \<open>
  \<^verbatim>\<open>filepath.Dir\<close> belongs to the Go standard library; it is the parameter \<open>Dir\<close> of
  every function that needs it, and nothing is assumed about it.
\<close>

text \<open>The loop \<^verbatim>\<open>for _, f := range files\<close> of \<^verbatim>\<open>addPackage\<close>, for the package stored at \<open>r\<close>.\<close>

fun register_files :: "(string \<Rightarrow> string) \<Rightarrow> ref \<Rightarrow> string list \<Rightarrow> DependencyGraph \<Rightarrow> DependencyGraph" where
  "register_files Dir r [] dg = dg"
| "register_files Dir r (f # fs) dg =
     register_files Dir r fs
       (dg\<lparr>fileMap := AList.update f r (fileMap dg),
           dirMap := AList.update (Dir f)
             (AList.update r r (case map_of (dirMap dg) (Dir f) of None \<Rightarrow> [] | Some dm \<Rightarrow> dm))
             (dirMap dg)\<rparr>)"

text \<open>
  The start of \<^verbatim>\<open>addPackage\<close> for an ID that is not yet in \<^verbatim>\<open>packageMap\<close>: the new object,
  its entries in \<^verbatim>\<open>packageMap\<close> and \<^verbatim>\<open>packagePathMap\<close>, and the four file lists.
\<close>

definition register_package :: "(string \<Rightarrow> string) \<Rightarrow> packages_Package \<Rightarrow> DependencyGraph \<Rightarrow> DependencyGraph" where
  "register_package Dir pkg dg =
     (let newPackage = \<lparr>ID = raw_ID pkg, PkgPath = raw_PkgPath pkg, Dependencies = [], Dependents = []\<rparr>;
          dg1 = dg\<lparr>packageMap := AList.update (raw_ID pkg) newPackage (packageMap dg)\<rparr>;
          dg2 = dg1\<lparr>packagePathMap := AList.update (raw_PkgPath pkg)
                  ((case map_of (packagePathMap dg1) (raw_PkgPath pkg) of None \<Rightarrow> [] | Some ps \<Rightarrow> ps) @ [raw_ID pkg])
                  (packagePathMap dg1)\<rparr>
      in foldl (\<lambda>d files. register_files Dir (raw_ID pkg) files d) dg2
           [GoFiles pkg, CompiledGoFiles pkg, IgnoredFiles pkg, OtherFiles pkg])"

text \<open>
  The two assignments in the loop over the imports:
  \<^verbatim>\<open>dependency.Dependents[pkg.ID] = newPackage\<close> and
  \<^verbatim>\<open>newPackage.Dependencies[importedPkg.ID] = dependency\<close>.
\<close>

definition set_Dependent :: "ref \<Rightarrow> string \<Rightarrow> ref \<Rightarrow> DependencyGraph \<Rightarrow> error + DependencyGraph" where
  "set_Dependent r k v dg =
     (case deref dg r of
        None \<Rightarrow> Inl NilPointerDereference
      | Some p \<Rightarrow> Inr (dg\<lparr>packageMap :=
                    AList.update r (p\<lparr>Dependents := AList.update k v (Dependents p)\<rparr>) (packageMap dg)\<rparr>))"

definition set_Dependency :: "ref \<Rightarrow> string \<Rightarrow> ref \<Rightarrow> DependencyGraph \<Rightarrow> error + DependencyGraph" where
  "set_Dependency r k v dg =
     (case deref dg r of
        None \<Rightarrow> Inl NilPointerDereference
      | Some p \<Rightarrow> Inr (dg\<lparr>packageMap :=
                    AList.update r (p\<lparr>Dependencies := AList.update k v (Dependencies p)\<rparr>) (packageMap dg)\<rparr>))"

definition link :: "ref \<Rightarrow> string \<Rightarrow> string \<Rightarrow> ref \<Rightarrow> DependencyGraph \<Rightarrow> error + DependencyGraph" where
  "link newPackage pkgID importedID dependency dg =
     (case set_Dependent dependency pkgID newPackage dg of
        Inl e \<Rightarrow> Inl e
      | Inr dg1 \<Rightarrow> set_Dependency newPackage importedID dependency dg1)"

text \<open>
  \<^verbatim>\<open>addPackage\<close> returns the pointer to the package of that ID and the graph as it has
  become; \<open>addImports\<close> is its loop over \<^verbatim>\<open>pkg.Imports\<close>, for the package stored at
  \<open>newPackage\<close> whose ID is \<open>pkgID\<close>.
\<close>

fun addPackage :: "(string \<Rightarrow> string) \<Rightarrow> packages_Package \<Rightarrow> DependencyGraph \<Rightarrow> error + (ref \<times> DependencyGraph)"
  and addImports :: "(string \<Rightarrow> string) \<Rightarrow> ref \<Rightarrow> string \<Rightarrow> packages_Package list \<Rightarrow> DependencyGraph \<Rightarrow> error + DependencyGraph"
where
  "addPackage Dir (RawPackage i p gf cf igf otf imps) dg =
     (case deref dg i of
        Some existingPackage \<Rightarrow> Inr (i, dg)
      | None \<Rightarrow>
          (case addImports Dir i i imps (register_package Dir (RawPackage i p gf cf igf otf imps) dg) of
             Inl e \<Rightarrow> Inl e
           | Inr dg' \<Rightarrow> Inr (i, dg')))"
| "addImports Dir newPackage pkgID [] dg = Inr dg"
| "addImports Dir newPackage pkgID (importedPkg # rest) dg =
     (case addPackage Dir importedPkg dg of
        Inl e \<Rightarrow> Inl e
      | Inr (dependency, dg1) \<Rightarrow>
          (case link newPackage pkgID (raw_ID importedPkg) dependency dg1 of
             Inl e \<Rightarrow> Inl e
           | Inr dg2 \<Rightarrow> addImports Dir newPackage pkgID rest dg2))"

definition empty_graph :: DependencyGraph where
  "empty_graph = \<lparr>packageMap = [], packagePathMap = [], fileMap = [], dirMap = []\<rparr>"

text \<open>The loop \<^verbatim>\<open>for _, pkg := range loadedPackages\<close>.\<close>

fun addLoaded :: "(string \<Rightarrow> string) \<Rightarrow> packages_Package list \<Rightarrow> DependencyGraph \<Rightarrow> error + DependencyGraph" where
  "addLoaded Dir [] dg = Inr dg"
| "addLoaded Dir (pkg # rest) dg =
     (case addPackage Dir pkg dg of
        Inl e \<Rightarrow> Inl e
      | Inr (r, dg') \<Rightarrow> addLoaded Dir rest dg')"

text \<open>
  \<^verbatim>\<open>packages.Load\<close> is the external loader: its result, the error or the loaded packages,
  is the argument \<open>loaded\<close>.
\<close>

definition BuildDependencyGraph :: "(string \<Rightarrow> string) \<Rightarrow> string + packages_Package list \<Rightarrow> error + DependencyGraph" where
  "BuildDependencyGraph Dir loaded =
     (case loaded of
        Inl err \<Rightarrow> Inl (LoadingPackages err)
      | Inr loadedPackages \<Rightarrow> addLoaded Dir loadedPackages empty_graph)"

section \<open>Queries\<close>

text \<open>
  \<^verbatim>\<open>dependencies\<close> and \<^verbatim>\<open>dependents\<close> are the same function up to the field of
  \<^verbatim>\<open>Package\<close> that they read; \<open>edge\<close> is that field. The recursion follows the graph and
  need not end, so a call carries fuel: the number of nested recursive calls it may make.
  \<open>None\<close> is a call that ran out of fuel; a call that runs out for every amount of fuel
  is one that never returns. \<open>self\<close> is the recursive call
  \<^verbatim>\<open>g.dependents(depPkg.PkgPath, true)\<close>.
\<close>

type_synonym pkgs = "(string \<times> ref) list"

text \<open>\<^verbatim>\<open>for id, depPkg := range deps { dependents[id] = depPkg }\<close>\<close>

definition merge_into :: "pkgs \<Rightarrow> pkgs \<Rightarrow> pkgs" where
  "merge_into deps acc = fold (\<lambda>(k, depPkg). AList.update k depPkg) deps acc"

text \<open>The loop over the values of \<^verbatim>\<open>pkg.Dependents\<close> (or \<^verbatim>\<open>pkg.Dependencies\<close>).\<close>

fun edges_loop :: "(string \<Rightarrow> (error + pkgs) option) \<Rightarrow> DependencyGraph \<Rightarrow> bool \<Rightarrow> pkgs \<Rightarrow> pkgs \<Rightarrow> (error + pkgs) option" where
  "edges_loop self g recursive [] acc = Some (Inr acc)"
| "edges_loop self g recursive ((k, r) # rest) acc =
     (case deref g r of
        None \<Rightarrow> Some (Inl NilPointerDereference)
      | Some depPkg \<Rightarrow>
          (if \<not> recursive then edges_loop self g recursive rest (AList.update (ID depPkg) r acc)
           else (case self (PkgPath depPkg) of
                   None \<Rightarrow> None
                 | Some (Inl err) \<Rightarrow> Some (Inl err)
                 | Some (Inr deps) \<Rightarrow>
                     edges_loop self g recursive rest (merge_into deps (AList.update (ID depPkg) r acc)))))"

text \<open>The loop \<^verbatim>\<open>for _, pkg := range pkgs\<close> over the variants of a path.\<close>

fun pkgs_loop :: "(string \<Rightarrow> (error + pkgs) option) \<Rightarrow> (Package \<Rightarrow> pkgs) \<Rightarrow> DependencyGraph \<Rightarrow> bool \<Rightarrow> ref list \<Rightarrow> pkgs \<Rightarrow> (error + pkgs) option" where
  "pkgs_loop self edge g recursive [] acc = Some (Inr acc)"
| "pkgs_loop self edge g recursive (r # rest) acc =
     (case deref g r of
        None \<Rightarrow> Some (Inl NilPointerDereference)
      | Some pkg \<Rightarrow>
          (case edges_loop self g recursive (edge pkg) acc of
             None \<Rightarrow> None
           | Some (Inl err) \<Rightarrow> Some (Inl err)
           | Some (Inr acc') \<Rightarrow> pkgs_loop self edge g recursive rest acc'))"

definition edge_query :: "(string \<Rightarrow> (error + pkgs) option) \<Rightarrow> (Package \<Rightarrow> pkgs) \<Rightarrow> DependencyGraph \<Rightarrow> string \<Rightarrow> bool \<Rightarrow> (error + pkgs) option" where
  "edge_query self edge g pkgPath recursive =
     (case map_of (packagePathMap g) pkgPath of
        None \<Rightarrow> Some (Inl ErrUnknownPackage)
      | Some ps \<Rightarrow> pkgs_loop self edge g recursive ps [])"

fun edge_closure :: "nat \<Rightarrow> (Package \<Rightarrow> pkgs) \<Rightarrow> DependencyGraph \<Rightarrow> string \<Rightarrow> bool \<Rightarrow> (error + pkgs) option" where
  "edge_closure 0 edge g pkgPath recursive =
     edge_query (\<lambda>p. None) edge g pkgPath recursive"
| "edge_closure (Suc n) edge g pkgPath recursive =
     edge_query (\<lambda>p. edge_closure n edge g p True) edge g pkgPath recursive"

definition dependencies :: "nat \<Rightarrow> DependencyGraph \<Rightarrow> string \<Rightarrow> bool \<Rightarrow> (error + pkgs) option" where
  "dependencies n g pkgPath recursive = edge_closure n Dependencies g pkgPath recursive"

definition dependents :: "nat \<Rightarrow> DependencyGraph \<Rightarrow> string \<Rightarrow> bool \<Rightarrow> (error + pkgs) option" where
  "dependents n g pkgPath recursive = edge_closure n Dependents g pkgPath recursive"

definition packageMapToArray :: "pkgs \<Rightarrow> ref list" where
  "packageMapToArray pkgMap = map snd pkgMap"

text \<open>The four public queries: the error, or the slice made of the result map.\<close>

definition to_slice :: "(error + pkgs) option \<Rightarrow> (error + ref list) option" where
  "to_slice res =
     (case res of
        None \<Rightarrow> None
      | Some (Inl err) \<Rightarrow> Some (Inl err)
      | Some (Inr deps) \<Rightarrow> Some (Inr (packageMapToArray deps)))"

definition g_Dependencies :: "nat \<Rightarrow> DependencyGraph \<Rightarrow> string \<Rightarrow> (error + ref list) option" where
  "g_Dependencies n g pkgPath = to_slice (dependencies n g pkgPath False)"

definition g_TransitiveDependencies :: "nat \<Rightarrow> DependencyGraph \<Rightarrow> string \<Rightarrow> (error + ref list) option" where
  "g_TransitiveDependencies n g pkgPath = to_slice (dependencies n g pkgPath True)"

definition g_Dependents :: "nat \<Rightarrow> DependencyGraph \<Rightarrow> string \<Rightarrow> (error + ref list) option" where
  "g_Dependents n g pkgPath = to_slice (dependents n g pkgPath False)"

definition g_TransitiveDependents :: "nat \<Rightarrow> DependencyGraph \<Rightarrow> string \<Rightarrow> (error + ref list) option" where
  "g_TransitiveDependents n g pkgPath = to_slice (dependents n g pkgPath True)"

section \<open>AffectedPackages\<close>

text \<open>The first loop: the map \<^verbatim>\<open>directlyAffected\<close> after the files have been looked up.\<close>

fun directlyAffected :: "(string \<Rightarrow> string) \<Rightarrow> DependencyGraph \<Rightarrow> string list \<Rightarrow> pkgs \<Rightarrow> error + pkgs" where
  "directlyAffected Dir g [] acc = Inr acc"
| "directlyAffected Dir g (f # fs) acc =
     (case map_of (fileMap g) f of
        Some r \<Rightarrow>
          (case deref g r of
             None \<Rightarrow> Inl NilPointerDereference
           | Some pkg \<Rightarrow> directlyAffected Dir g fs (AList.update (ID pkg) r acc))
      | None \<Rightarrow>
          (case map_of (dirMap g) (Dir f) of
             Some dirPkgs \<Rightarrow> directlyAffected Dir g fs (merge_into dirPkgs acc)
           | None \<Rightarrow> directlyAffected Dir g fs acc))"

text \<open>
  The second loop, over \<^verbatim>\<open>directlyAffected\<close>: the slice \<^verbatim>\<open>direct\<close> and the map
  \<^verbatim>\<open>allAffected\<close> so far are its state.
\<close>

fun affected_loop :: "nat \<Rightarrow> DependencyGraph \<Rightarrow> pkgs \<Rightarrow> ref list \<Rightarrow> pkgs \<Rightarrow> (error + ref list \<times> pkgs) option" where
  "affected_loop n g [] direct allAffected = Some (Inr (direct, allAffected))"
| "affected_loop n g ((k, r) # rest) direct allAffected =
     (case deref g r of
        None \<Rightarrow> Some (Inl NilPointerDereference)
      | Some pkg \<Rightarrow>
          (case dependents n g (PkgPath pkg) True of
             None \<Rightarrow> None
           | Some (Inl err) \<Rightarrow> Some (Inl err)
           | Some (Inr deps) \<Rightarrow>
               affected_loop n g rest (direct @ [r]) (merge_into deps (AList.update k r allAffected))))"

definition AffectedPackages :: "(string \<Rightarrow> string) \<Rightarrow> nat \<Rightarrow> DependencyGraph \<Rightarrow> string list \<Rightarrow> (error + ref list \<times> ref list) option" where
  "AffectedPackages Dir n g files =
     (case directlyAffected Dir g files [] of
        Inl err \<Rightarrow> Some (Inl err)
      | Inr da \<Rightarrow>
          (case affected_loop n g da [] [] of
             None \<Rightarrow> None
           | Some (Inl err) \<Rightarrow> Some (Inl err)
           | Some (Inr (direct, allAffected)) \<Rightarrow> Some (Inr (direct, packageMapToArray allAffected))))"

section \<open>Invocations of the recursive query\<close>

text \<open>
  The paths for which \<^verbatim>\<open>dependents\<close> (or \<^verbatim>\<open>dependencies\<close>) is invoked during a call, in the
  order of the invocations and with the call itself first: each function below follows
  the function above of the same name and collects the invocations instead of the result.
\<close>

fun edges_loop_calls :: "(string \<Rightarrow> (error + pkgs) option) \<Rightarrow> (string \<Rightarrow> string list) \<Rightarrow> DependencyGraph \<Rightarrow> bool \<Rightarrow> pkgs \<Rightarrow> string list" where
  "edges_loop_calls self self_calls g recursive [] = []"
| "edges_loop_calls self self_calls g recursive ((k, r) # rest) =
     (case deref g r of
        None \<Rightarrow> []
      | Some depPkg \<Rightarrow>
          (if \<not> recursive then edges_loop_calls self self_calls g recursive rest
           else self_calls (PkgPath depPkg) @
                (case self (PkgPath depPkg) of
                   Some (Inr deps) \<Rightarrow> edges_loop_calls self self_calls g recursive rest
                 | _ \<Rightarrow> [])))"

fun pkgs_loop_calls :: "(string \<Rightarrow> (error + pkgs) option) \<Rightarrow> (string \<Rightarrow> string list) \<Rightarrow> (Package \<Rightarrow> pkgs) \<Rightarrow> DependencyGraph \<Rightarrow> bool \<Rightarrow> ref list \<Rightarrow> string list" where
  "pkgs_loop_calls self self_calls edge g recursive [] = []"
| "pkgs_loop_calls self self_calls edge g recursive (r # rest) =
     (case deref g r of
        None \<Rightarrow> []
      | Some pkg \<Rightarrow>
          edges_loop_calls self self_calls g recursive (edge pkg) @
          (case edges_loop self g recursive (edge pkg) [] of
             Some (Inr acc') \<Rightarrow> pkgs_loop_calls self self_calls edge g recursive rest
           | _ \<Rightarrow> []))"

definition edge_query_calls :: "(string \<Rightarrow> (error + pkgs) option) \<Rightarrow> (string \<Rightarrow> string list) \<Rightarrow> (Package \<Rightarrow> pkgs) \<Rightarrow> DependencyGraph \<Rightarrow> string \<Rightarrow> bool \<Rightarrow> string list" where
  "edge_query_calls self self_calls edge g pkgPath recursive =
     pkgPath #
     (case map_of (packagePathMap g) pkgPath of
        None \<Rightarrow> []
      | Some ps \<Rightarrow> pkgs_loop_calls self self_calls edge g recursive ps)"

fun edge_closure_calls :: "nat \<Rightarrow> (Package \<Rightarrow> pkgs) \<Rightarrow> DependencyGraph \<Rightarrow> string \<Rightarrow> bool \<Rightarrow> string list" where
  "edge_closure_calls 0 edge g pkgPath recursive =
     edge_query_calls (\<lambda>p. None) (\<lambda>p. []) edge g pkgPath recursive"
| "edge_closure_calls (Suc n) edge g pkgPath recursive =
     edge_query_calls (\<lambda>p. edge_closure n edge g p True) (\<lambda>p. edge_closure_calls n edge g p True)
       edge g pkgPath recursive"

definition dependents_calls :: "nat \<Rightarrow> DependencyGraph \<Rightarrow> string \<Rightarrow> bool \<Rightarrow> string list" where
  "dependents_calls n g pkgPath recursive = edge_closure_calls n Dependents g pkgPath recursive"

definition dependencies_calls :: "nat \<Rightarrow> DependencyGraph \<Rightarrow> string \<Rightarrow> bool \<Rightarrow> string list" where
  "dependencies_calls n g pkgPath recursive = edge_closure_calls n Dependencies g pkgPath recursive"

fun affected_loop_calls :: "nat \<Rightarrow> DependencyGraph \<Rightarrow> pkgs \<Rightarrow> string list" where
  "affected_loop_calls n g [] = []"
| "affected_loop_calls n g ((k, r) # rest) =
     (case deref g r of
        None \<Rightarrow> []
      | Some pkg \<Rightarrow>
          dependents_calls n g (PkgPath pkg) True @
          (case dependents n g (PkgPath pkg) True of
             Some (Inr deps) \<Rightarrow> affected_loop_calls n g rest
           | _ \<Rightarrow> []))"

definition AffectedPackages_calls :: "(string \<Rightarrow> string) \<Rightarrow> nat \<Rightarrow> DependencyGraph \<Rightarrow> string list \<Rightarrow> string list" where
  "AffectedPackages_calls Dir n g files =
     (case directlyAffected Dir g files [] of
        Inl err \<Rightarrow> []
      | Inr da \<Rightarrow> affected_loop_calls n g da)"

section \<open>Invariants of a built graph\<close>

text \<open>
  A map of packages is in order when each entry points to the object of its key and
  that object is in the store.
\<close>

definition refs_ok :: "DependencyGraph \<Rightarrow> pkgs \<Rightarrow> bool" where
  "refs_ok g m = (\<forall>(k, v) \<in> set m. v = k \<and> deref g k \<noteq> None)"

text \<open>Every object is stored under its own ID, and its two edge maps are in order.\<close>

definition store_ok :: "DependencyGraph \<Rightarrow> bool" where
  "store_ok g = (distinct (map fst (packageMap g)) \<and>
     (\<forall>r P. deref g r = Some P \<longrightarrow>
        ID P = r \<and> refs_ok g (Dependencies P) \<and> refs_ok g (Dependents P)))"

text \<open>
  Every object is listed under its own path in \<^verbatim>\<open>packagePathMap\<close>, and that map lists
  objects of the store only.
\<close>

definition paths_ok :: "DependencyGraph \<Rightarrow> bool" where
  "paths_ok g =
     ((\<forall>r P. deref g r = Some P \<longrightarrow>
         (\<exists>ps. map_of (packagePathMap g) (PkgPath P) = Some ps \<and> r \<in> set ps)) \<and>
      (\<forall>p ps. map_of (packagePathMap g) p = Some ps \<longrightarrow> (\<forall>r \<in> set ps. deref g r \<noteq> None)))"

definition files_ok :: "DependencyGraph \<Rightarrow> bool" where
  "files_ok g =
     ((\<forall>f r. map_of (fileMap g) f = Some r \<longrightarrow> deref g r \<noteq> None) \<and>
      (\<forall>d dm. map_of (dirMap g) d = Some dm \<longrightarrow> refs_ok g dm))"

text \<open>The two directions of an edge are stored together.\<close>

definition sym_ok :: "DependencyGraph \<Rightarrow> bool" where
  "sym_ok g =
     (\<forall>p q P Q. deref g p = Some P \<longrightarrow> deref g q = Some Q \<longrightarrow>
        (q \<in> fst ` set (Dependencies P)) = (p \<in> fst ` set (Dependents Q)))"

definition wf_graph :: "DependencyGraph \<Rightarrow> bool" where
  "wf_graph g = (store_ok g \<and> paths_ok g \<and> files_ok g \<and> sym_ok g)"

text \<open>The object that \<^verbatim>\<open>addPackage\<close> allocates, and an object after one pass of the import loop
  for the importer \<open>i\<close> and the imported \<open>j\<close>.\<close>

definition new_Package :: "packages_Package \<Rightarrow> Package" where
  "new_Package pkg = \<lparr>ID = raw_ID pkg, PkgPath = raw_PkgPath pkg, Dependencies = [], Dependents = []\<rparr>"

definition linked :: "ref \<Rightarrow> ref \<Rightarrow> ref \<Rightarrow> Package \<Rightarrow> Package" where
  "linked i j r P =
     P\<lparr>Dependents := (if r = j then AList.update i i (Dependents P) else Dependents P),
       Dependencies := (if r = i then AList.update j j (Dependencies P) else Dependencies P)\<rparr>"

section \<open>The loaded packages and their imports\<close>

text \<open>
  The \<^verbatim>\<open>packages.Package\<close> objects that the walk of \<^verbatim>\<open>addPackage\<close> can meet: a loaded package
  and every package reached from it through \<^verbatim>\<open>Imports\<close>.
\<close>

fun packages_of :: "packages_Package \<Rightarrow> packages_Package list" where
  "packages_of (RawPackage i p gf cf igf otf imps) =
     RawPackage i p gf cf igf otf imps # concat (map packages_of imps)"

definition loaded_packages :: "packages_Package list \<Rightarrow> packages_Package list" where
  "loaded_packages loadedPackages = concat (map packages_of loadedPackages)"

text \<open>
  The loader returns a graph of objects in which an ID names one object, reached by
  every import of that package. The tree of the model unfolds that graph, so nodes
  with the same ID are the same package, with the same imports.
\<close>

definition one_object_per_ID :: "packages_Package list \<Rightarrow> bool" where
  "one_object_per_ID loadedPackages =
     (\<forall>p \<in> set (loaded_packages loadedPackages). \<forall>q \<in> set (loaded_packages loadedPackages).
        raw_ID p = raw_ID q \<longrightarrow> p = q)"

text \<open>
  The import of the package with ID \<open>j\<close> by the package with ID \<open>i\<close> is stored in both
  directions: both are registered, \<open>j\<close> is in the \<^verbatim>\<open>Dependencies\<close> of \<open>i\<close> and \<open>i\<close> in the
  \<^verbatim>\<open>Dependents\<close> of \<open>j\<close>, each under its ID and pointing to its object.
\<close>

definition import_stored :: "DependencyGraph \<Rightarrow> string \<Rightarrow> string \<Rightarrow> bool" where
  "import_stored g i j =
     (case deref g i of
        None \<Rightarrow> False
      | Some P \<Rightarrow>
          (case deref g j of
             None \<Rightarrow> False
           | Some Q \<Rightarrow> map_of (Dependencies P) j = Some j \<and> map_of (Dependents Q) i = Some i))"

text \<open>
  During the walk: every registered package of \<open>N\<close> has all its imports stored, except
  the packages \<open>A\<close> whose import loop is still running. And at any time: every entry of a
  \<^verbatim>\<open>Dependencies\<close> map is an import of a package of \<open>N\<close> with the ID of the importer.
\<close>

definition imports_done :: "DependencyGraph \<Rightarrow> packages_Package set \<Rightarrow> packages_Package set \<Rightarrow> bool" where
  "imports_done g A N =
     (\<forall>n \<in> N. raw_ID n \<in> dom (deref g) \<longrightarrow>
        n \<in> A \<or> (\<forall>q \<in> set (Imports n). import_stored g (raw_ID n) (raw_ID q)))"

definition only_imports :: "DependencyGraph \<Rightarrow> packages_Package set \<Rightarrow> bool" where
  "only_imports g N =
     (\<forall>i P k. deref g i = Some P \<and> k \<in> fst ` set (Dependencies P) \<longrightarrow>
        (\<exists>n \<in> N. raw_ID n = i \<and> k \<in> raw_ID ` set (Imports n)))"

section \<open>Edge relations and what a result covers\<close>

text \<open>
  The edges between packages, as pairs of pointers: \<open>(r, v)\<close> when the map \<open>edge\<close> of the
  object at \<open>r\<close> has an entry that points to \<open>v\<close>. With \<open>Dependents\<close> for \<open>edge\<close> this is the
  relation "is imported by" between compilation units.
\<close>

definition unit_edges :: "(Package \<Rightarrow> pkgs) \<Rightarrow> DependencyGraph \<Rightarrow> (ref \<times> ref) set" where
  "unit_edges edge g =
     set (concat (map (\<lambda>(r, P). map (\<lambda>(k, v). (r, v)) (edge P)) (packageMap g)))"

text \<open>
  The edges between import paths that the recursion follows: from the path \<open>p\<close> of a call
  to the path of every package that an edge map of a variant of \<open>p\<close> points to.
\<close>

definition path_edges :: "(Package \<Rightarrow> pkgs) \<Rightarrow> DependencyGraph \<Rightarrow> (string \<times> string) set" where
  "path_edges edge g =
     set (concat (map (\<lambda>(p, ps).
       concat (map (\<lambda>r. case deref g r of
                          None \<Rightarrow> []
                        | Some P \<Rightarrow> concat (map (\<lambda>(k, v). case deref g v of
                                                          None \<Rightarrow> []
                                                        | Some Q \<Rightarrow> [(p, PkgPath Q)]) (edge P))) ps))
       (packagePathMap g)))"

text \<open>
  A result map \<open>m\<close> covers the pointer \<open>v\<close>: it has \<open>v\<close> as a key and, in a recursive query,
  all keys of the result of the recursive call for the path of \<open>v\<close>.
\<close>

definition covered :: "(string \<Rightarrow> (error + pkgs) option) \<Rightarrow> DependencyGraph \<Rightarrow> bool \<Rightarrow> pkgs \<Rightarrow> ref \<Rightarrow> bool" where
  "covered self g recursive m v =
     (v \<in> fst ` set m \<and>
      (recursive \<longrightarrow> (\<exists>Q m'. deref g v = Some Q \<and> self (PkgPath Q) = Some (Inr m') \<and>
                               fst ` set m' \<subseteq> fst ` set m)))"

text \<open>The packages that the first loop of \<^verbatim>\<open>AffectedPackages\<close> finds for one file.\<close>

definition file_owners :: "(string \<Rightarrow> string) \<Rightarrow> DependencyGraph \<Rightarrow> string \<Rightarrow> ref set" where
  "file_owners Dir g f =
     (case map_of (fileMap g) f of
        Some r \<Rightarrow> {r}
      | None \<Rightarrow> (case map_of (dirMap g) (Dir f) of
                   Some dirPkgs \<Rightarrow> snd ` set dirPkgs
                 | None \<Rightarrow> {}))"

section \<open>The result value and its JSON form (gta.go)\<close>

text \<open>
  \<^verbatim>\<open>strings.HasSuffix\<close> and \<^verbatim>\<open>strings.TrimSuffix\<close> of the Go standard library, on strings as
  byte sequences.
\<close>

definition HasSuffix :: "string \<Rightarrow> string \<Rightarrow> bool" where
  "HasSuffix s suffix =
     (length suffix \<le> length s \<and> drop (length s - length suffix) s = suffix)"

definition TrimSuffix :: "string \<Rightarrow> string \<Rightarrow> string" where
  "TrimSuffix s suffix =
     (if HasSuffix s suffix then take (length s - length suffix) s else s)"

text \<open>The key under which the loop of \<^verbatim>\<open>UniquePackagePaths\<close> enters a package path.\<close>

definition path_key :: "string \<Rightarrow> string" where
  "path_key pkgPath =
     (if HasSuffix pkgPath ''_test'' then TrimSuffix pkgPath ''_test''
      else if HasSuffix pkgPath ''.test'' then TrimSuffix pkgPath ''.test''
      else pkgPath)"

text \<open>
  \<^verbatim>\<open>pkgPathMap\<close> is a set of strings; the slice made of it is sorted with \<^verbatim>\<open>sort.Slice\<close>
  and the order \<^verbatim>\<open><\<close> of Go strings, which compares bytes lexicographically. The list
  order of \<open>string\<close> is that order, and a sorted list of distinct strings is the same
  whichever algorithm sorts it.
\<close>

fun pkgPathMap_loop :: "Package list \<Rightarrow> (string \<times> unit) list \<Rightarrow> (string \<times> unit) list" where
  "pkgPathMap_loop [] pkgPathMap = pkgPathMap"
| "pkgPathMap_loop (pkg # rest) pkgPathMap =
     pkgPathMap_loop rest (AList.update (path_key (PkgPath pkg)) () pkgPathMap)"

definition UniquePackagePaths :: "Package list \<Rightarrow> string list" where
  "UniquePackagePaths pkgs = sort (map fst (pkgPathMap_loop pkgs []))"

record Packages =
  P_Dependencies :: "(string \<times> Package list) list"
  Changes :: "Package list"
  AllChanges :: "Package list"

record packagesJSON =
  json_dependencies :: "(string \<times> string list) list"
  json_changes :: "string list"
  json_all_changes :: "string list"

definition mapify :: "(string \<times> Package list) list \<Rightarrow> (string \<times> string list) list" where
  "mapify pkgs = fold (\<lambda>(key, ps). AList.update key (UniquePackagePaths ps)) pkgs []"

text \<open>
  \<^verbatim>\<open>json.Marshal\<close> and \<^verbatim>\<open>json.Unmarshal\<close> belong to the Go standard library: they are the
  parameters \<open>json_Marshal\<close> and \<open>json_Unmarshal\<close>, over any type \<open>'b\<close> of encodings, each
  returning the text of its error or its result. \<^verbatim>\<open>UnmarshalJSON\<close> passes the address of the
  pointer \<^verbatim>\<open>s\<close>, so the result of \<open>json_Unmarshal\<close> is what \<^verbatim>\<open>s\<close> points to afterwards:
  \<open>None\<close> when the decoder has set \<^verbatim>\<open>s\<close> to \<^verbatim>\<open>nil\<close>, as it does for the input \<^verbatim>\<open>null\<close>. Reading
  \<^verbatim>\<open>s.Dependencies\<close> is then the run-time panic of Go, \<open>NilPackagesJSON\<close> here.
\<close>

datatype json_error = JSONError string | NilPackagesJSON

text \<open>The value \<^verbatim>\<open>s\<close> that \<^verbatim>\<open>MarshalJSON\<close> encodes.\<close>

definition to_packagesJSON :: "Packages \<Rightarrow> packagesJSON" where
  "to_packagesJSON p =
     \<lparr>json_dependencies = mapify (P_Dependencies p),
      json_changes = UniquePackagePaths (Changes p),
      json_all_changes = UniquePackagePaths (AllChanges p)\<rparr>"

definition MarshalJSON :: "(packagesJSON \<Rightarrow> string + 'b) \<Rightarrow> Packages \<Rightarrow> json_error + 'b" where
  "MarshalJSON json_Marshal p =
     (case json_Marshal (to_packagesJSON p) of
        Inl err \<Rightarrow> Inl (JSONError err)
      | Inr b \<Rightarrow> Inr b)"

text \<open>\<^verbatim>\<open>&Package{Package: &packages.Package{PkgPath: v}}\<close>: no ID, no edge maps.\<close>

definition stand_in :: "string \<Rightarrow> Package" where
  "stand_in v = \<lparr>ID = [], PkgPath = v, Dependencies = [], Dependents = []\<rparr>"

text \<open>The loops over \<^verbatim>\<open>s.Dependencies\<close>: an entry with an empty list makes no entry.\<close>

definition append_dependency :: "string \<Rightarrow> string \<Rightarrow> (string \<times> Package list) list \<Rightarrow> (string \<times> Package list) list" where
  "append_dependency k vv deps =
     AList.update k ((case map_of deps k of None \<Rightarrow> [] | Some ps \<Rightarrow> ps) @ [stand_in vv]) deps"

definition unmarshal_dependencies :: "(string \<times> string list) list \<Rightarrow> (string \<times> Package list) list" where
  "unmarshal_dependencies sdeps = fold (\<lambda>(k, v) deps. fold (append_dependency k) v deps) sdeps []"

definition UnmarshalJSON :: "('b \<Rightarrow> string + packagesJSON option) \<Rightarrow> 'b \<Rightarrow> Packages \<Rightarrow> json_error + Packages" where
  "UnmarshalJSON json_Unmarshal b p =
     (case json_Unmarshal b of
        Inl err \<Rightarrow> Inl (JSONError err)
      | Inr None \<Rightarrow> Inl NilPackagesJSON
      | Inr (Some s) \<Rightarrow>
          Inr (p\<lparr>P_Dependencies := unmarshal_dependencies (json_dependencies s),
                 Changes := Changes p @ map stand_in (json_changes s),
                 AllChanges := AllChanges p @ map stand_in (json_all_changes s)\<rparr>))"

text \<open>\<^verbatim>\<open>new(Packages)\<close>, and the round trip of \<^verbatim>\<open>TestJSONRoundtrip\<close>: encode, then decode into a new value.\<close>

definition new_Packages :: Packages where
  "new_Packages = \<lparr>P_Dependencies = [], Changes = [], AllChanges = []\<rparr>"

definition JSONRoundtrip :: "(packagesJSON \<Rightarrow> string + 'b) \<Rightarrow> ('b \<Rightarrow> string + packagesJSON option) \<Rightarrow> Packages \<Rightarrow> json_error + Packages" where
  "JSONRoundtrip json_Marshal json_Unmarshal p =
     (case MarshalJSON json_Marshal p of
        Inl err \<Rightarrow> Inl err
      | Inr b \<Rightarrow> UnmarshalJSON json_Unmarshal b new_Packages)"

section \<open>Example inputs\<close>

text \<open>
  A stand-in for \<^verbatim>\<open>filepath.Dir\<close> on the paths of the examples, which are clean: the path
  up to its last slash, \<^verbatim>\<open>.\<close> for a path without a slash and \<^verbatim>\<open>/\<close> for a path whose only slash
  is its first character.
\<close>

definition dir_of :: "string \<Rightarrow> string" where
  "dir_of f =
     (if CHR ''/'' \<in> set f
      then (let d = rev (tl (dropWhile (\<lambda>c. c \<noteq> CHR ''/'') (rev f)))
            in if d = [] then ''/'' else d)
      else ''.'')"

text \<open>A imports B, B imports C.\<close>

definition chain :: "packages_Package list" where
  "chain = [RawPackage ''A'' ''A'' [''a/a.go''] [] [] []
             [RawPackage ''B'' ''B'' [''b/b.go''] [] [] []
               [RawPackage ''C'' ''C'' [''c/c.go''] [] [] [] []]]]"

definition chain_graph :: DependencyGraph where
  "chain_graph =
     \<lparr>packageMap =
        [(''A'', \<lparr>ID = ''A'', PkgPath = ''A'', Dependencies = [(''B'', ''B'')], Dependents = []\<rparr>),
         (''B'', \<lparr>ID = ''B'', PkgPath = ''B'', Dependencies = [(''C'', ''C'')], Dependents = [(''A'', ''A'')]\<rparr>),
         (''C'', \<lparr>ID = ''C'', PkgPath = ''C'', Dependencies = [], Dependents = [(''B'', ''B'')]\<rparr>)],
      packagePathMap = [(''A'', [''A'']), (''B'', [''B'']), (''C'', [''C''])],
      fileMap = [(''a/a.go'', ''A''), (''b/b.go'', ''B''), (''c/c.go'', ''C'')],
      dirMap = [(''a'', [(''A'', ''A'')]), (''b'', [(''B'', ''B'')]), (''c'', [(''C'', ''C'')])]\<rparr>"

text \<open>
  Two packages whose in-package tests import each other's package, as
  \<^verbatim>\<open>packages.Load\<close> reports them with \<^verbatim>\<open>Tests: true\<close>: the test variant \<^verbatim>\<open>a [a.test]\<close> has the
  path of \<^verbatim>\<open>a\<close> and imports \<^verbatim>\<open>c\<close>, the test variant \<^verbatim>\<open>c [c.test]\<close> has the path of \<^verbatim>\<open>c\<close> and
  imports \<^verbatim>\<open>a\<close>.
\<close>

definition cross_tests :: "packages_Package list" where
  "cross_tests =
     (let a = RawPackage ''a'' ''a'' [''a/a.go''] [] [] [] [];
          c = RawPackage ''c'' ''c'' [''c/c.go''] [] [] [] [];
          a_test = RawPackage ''a [a.test]'' ''a'' [''a/a.go'', ''a/a_test.go''] [] [] [] [c];
          c_test = RawPackage ''c [c.test]'' ''c'' [''c/c.go'', ''c/c_test.go''] [] [] [] [a]
      in [a, a_test, RawPackage ''a.test'' ''a.test'' [] [] [] [] [a_test],
          c, c_test, RawPackage ''c.test'' ''c.test'' [] [] [] [] [c_test]])"

definition cross_tests_graph :: DependencyGraph where
  "cross_tests_graph =
     \<lparr>packageMap =
        [(''a'', \<lparr>ID = ''a'', PkgPath = ''a'', Dependencies = [],
                  Dependents = [(''c [c.test]'', ''c [c.test]'')]\<rparr>),
         (''a [a.test]'', \<lparr>ID = ''a [a.test]'', PkgPath = ''a'', Dependencies = [(''c'', ''c'')],
                  Dependents = [(''a.test'', ''a.test'')]\<rparr>),
         (''c'', \<lparr>ID = ''c'', PkgPath = ''c'', Dependencies = [],
                  Dependents = [(''a [a.test]'', ''a [a.test]'')]\<rparr>),
         (''a.test'', \<lparr>ID = ''a.test'', PkgPath = ''a.test'',
                  Dependencies = [(''a [a.test]'', ''a [a.test]'')], Dependents = []\<rparr>),
         (''c [c.test]'', \<lparr>ID = ''c [c.test]'', PkgPath = ''c'', Dependencies = [(''a'', ''a'')],
                  Dependents = [(''c.test'', ''c.test'')]\<rparr>),
         (''c.test'', \<lparr>ID = ''c.test'', PkgPath = ''c.test'',
                  Dependencies = [(''c [c.test]'', ''c [c.test]'')], Dependents = []\<rparr>)],
      packagePathMap = [(''a'', [''a'', ''a [a.test]'']), (''c'', [''c'', ''c [c.test]'']),
                        (''a.test'', [''a.test'']), (''c.test'', [''c.test''])],
      fileMap = [(''a/a.go'', ''a [a.test]''), (''a/a_test.go'', ''a [a.test]''),
                 (''c/c.go'', ''c [c.test]''), (''c/c_test.go'', ''c [c.test]'')],
      dirMap = [(''a'', [(''a'', ''a''), (''a [a.test]'', ''a [a.test]'')]),
                (''c'', [(''c'', ''c''), (''c [c.test]'', ''c [c.test]'')])]\<rparr>"

definition cross_tests_rank :: "string \<Rightarrow> nat" where
  "cross_tests_rank s =
     (if s = ''a'' \<or> s = ''c'' then 0
      else if s = ''a [a.test]'' \<or> s = ''c [c.test]'' then 1 else 2)"

text \<open>A result whose only change is the external test package of \<^verbatim>\<open>a\<close>.\<close>

definition external_test_change :: Packages where
  "external_test_change =
     \<lparr>P_Dependencies = [(''a_test'', [])], Changes = [stand_in ''a_test''], AllChanges = [stand_in ''a_test'']\<rparr>"

definition external_test_change_decoded :: Packages where
  "external_test_change_decoded =
     \<lparr>P_Dependencies = [], Changes = [stand_in ''a''], AllChanges = [stand_in ''a'']\<rparr>"

text \<open>The value of \<^verbatim>\<open>TestJSONRoundtrip\<close>.\<close>

definition roundtrip_test_value :: Packages where
  "roundtrip_test_value =
     \<lparr>P_Dependencies =
        [(''do/tools/build/gta'',
          [stand_in ''do/tools/build/gta/cmd/gta'', stand_in ''do/tools/build/gtartifacts''])],
      Changes = [stand_in ''do/teams/compute/octopus''],
      AllChanges = [stand_in ''do/teams/compute/octopus'']\<rparr>"

text \<open>The diamond: A and B import D, C imports A and B.\<close>

definition diamond :: "packages_Package list" where
  "diamond =
     (let D = RawPackage ''D'' ''D'' [''d/d.go''] [] [] [] []
      in [RawPackage ''C'' ''C'' [''c/c.go''] [] [] []
            [RawPackage ''A'' ''A'' [''a/a.go''] [] [] [] [D],
             RawPackage ''B'' ''B'' [''b/b.go''] [] [] [] [D]]])"

definition diamond_graph :: DependencyGraph where
  "diamond_graph =
     \<lparr>packageMap =
        [(''C'', \<lparr>ID = ''C'', PkgPath = ''C'', Dependencies = [(''A'', ''A''), (''B'', ''B'')], Dependents = []\<rparr>),
         (''A'', \<lparr>ID = ''A'', PkgPath = ''A'', Dependencies = [(''D'', ''D'')], Dependents = [(''C'', ''C'')]\<rparr>),
         (''D'', \<lparr>ID = ''D'', PkgPath = ''D'', Dependencies = [], Dependents = [(''A'', ''A''), (''B'', ''B'')]\<rparr>),
         (''B'', \<lparr>ID = ''B'', PkgPath = ''B'', Dependencies = [(''D'', ''D'')], Dependents = [(''C'', ''C'')]\<rparr>)],
      packagePathMap = [(''C'', [''C'']), (''A'', [''A'']), (''D'', [''D'']), (''B'', [''B''])],
      fileMap = [(''c/c.go'', ''C''), (''a/a.go'', ''A''), (''d/d.go'', ''D''), (''b/b.go'', ''B'')],
      dirMap = [(''c'', [(''C'', ''C'')]), (''a'', [(''A'', ''A'')]),
                (''d'', [(''D'', ''D'')]), (''b'', [(''B'', ''B'')])]\<rparr>"

text \<open>Z imports X and Y.\<close>

definition shared_dependent :: "packages_Package list" where
  "shared_dependent =
     [RawPackage ''Z'' ''Z'' [''z/z.go''] [] [] []
        [RawPackage ''X'' ''X'' [''x/x.go''] [] [] [] [],
         RawPackage ''Y'' ''Y'' [''y/y.go''] [] [] [] []]]"

definition shared_dependent_graph :: DependencyGraph where
  "shared_dependent_graph =
     \<lparr>packageMap =
        [(''Z'', \<lparr>ID = ''Z'', PkgPath = ''Z'', Dependencies = [(''X'', ''X''), (''Y'', ''Y'')], Dependents = []\<rparr>),
         (''X'', \<lparr>ID = ''X'', PkgPath = ''X'', Dependencies = [], Dependents = [(''Z'', ''Z'')]\<rparr>),
         (''Y'', \<lparr>ID = ''Y'', PkgPath = ''Y'', Dependencies = [], Dependents = [(''Z'', ''Z'')]\<rparr>)],
      packagePathMap = [(''Z'', [''Z'']), (''X'', [''X'']), (''Y'', [''Y''])],
      fileMap = [(''z/z.go'', ''Z''), (''x/x.go'', ''X''), (''y/y.go'', ''Y'')],
      dirMap = [(''z'', [(''Z'', ''Z'')]), (''x'', [(''X'', ''X'')]), (''y'', [(''Y'', ''Y'')])]\<rparr>"

section \<open>The examples, built\<close>

lemma chain_built: "BuildDependencyGraph dir_of (Inr chain) = Inr chain_graph"
  by code_simp

lemma cross_tests_built: "BuildDependencyGraph dir_of (Inr cross_tests) = Inr cross_tests_graph"
  by code_simp

text \<open>A relation whose edges all go up in some rank has no cycle.\<close>

lemma acyclic_rank:
  fixes rank :: "'a \<Rightarrow> nat"
  assumes "\<forall>(x, y) \<in> E. rank x < rank y"
  shows "acyclic E"
proof -
  have "E \<subseteq> measure rank" using assms by auto
  moreover have "acyclic (measure rank)" by (rule wf_acyclic) simp
  ultimately show ?thesis by (rule acyclic_subset[rotated])
qed

lemma diamond_built: "BuildDependencyGraph dir_of (Inr diamond) = Inr diamond_graph"
  by code_simp

lemma shared_dependent_built:
  "BuildDependencyGraph dir_of (Inr shared_dependent) = Inr shared_dependent_graph"
  by code_simp

section \<open>BuildDependencyGraph establishes the invariants\<close>

text \<open>
  Each step of \<^verbatim>\<open>addPackage\<close> (the file loop, the registration of a new package, the two
  assignments for one import) keeps each invariant; the walk over the imports is then an
  induction along the recursion of \<open>addPackage\<close> and \<open>addImports\<close>.
\<close>

lemma set_update_cases:
  "(a, b) \<in> set (AList.update k v al) \<Longrightarrow> (a, b) = (k, v) \<or> (a, b) \<in> set al"
  by (induction al) (auto split: if_splits)

lemma refs_ok_Nil [simp]: "refs_ok g []"
  by (simp add: refs_ok_def)

lemma refs_ok_update:
  "refs_ok g m \<Longrightarrow> deref g k \<noteq> None \<Longrightarrow> refs_ok g (AList.update k k m)"
  unfolding refs_ok_def by (auto dest: set_update_cases)

lemma refs_ok_mono:
  "refs_ok g m \<Longrightarrow> dom (deref g) \<subseteq> dom (deref g') \<Longrightarrow> refs_ok g' m"
  unfolding refs_ok_def by (fastforce simp: dom_def)

lemma refs_ok_merge_into:
  "refs_ok g deps \<Longrightarrow> refs_ok g acc \<Longrightarrow> refs_ok g (merge_into deps acc)"
proof (induction deps arbitrary: acc)
  case Nil
  then show ?case by (simp add: merge_into_def)
next
  case (Cons a deps)
  obtain k v where a: "a = (k, v)" by (cases a)
  from Cons.prems(1) a have kv: "v = k" "deref g k \<noteq> None" and rest: "refs_ok g deps"
    by (auto simp: refs_ok_def)
  have "refs_ok g (AList.update k k acc)"
    using Cons.prems(2) kv(2) by (rule refs_ok_update)
  from Cons.IH[OF rest this] show ?case
    using a kv(1) by (simp add: merge_into_def)
qed

subsection \<open>The file loop\<close>

lemma register_files_packageMap [simp]:
  "packageMap (register_files Dir r fs dg) = packageMap dg"
  by (induction fs arbitrary: dg) auto

lemma register_files_packagePathMap [simp]:
  "packagePathMap (register_files Dir r fs dg) = packagePathMap dg"
  by (induction fs arbitrary: dg) auto

lemma deref_register_files [simp]:
  "deref (register_files Dir r fs dg) = deref dg"
  by (simp add: deref_def fun_eq_iff)

lemma files_ok_step:
  assumes "files_ok dg" "deref dg r \<noteq> None"
  shows "files_ok (dg\<lparr>fileMap := AList.update f r (fileMap dg),
           dirMap := AList.update d
             (AList.update r r (case map_of (dirMap dg) d of None \<Rightarrow> [] | Some dm \<Rightarrow> dm))
             (dirMap dg)\<rparr>)"
proof -
  let ?dm = "case map_of (dirMap dg) d of None \<Rightarrow> [] | Some dm \<Rightarrow> dm"
  have "refs_ok dg ?dm"
    using assms(1) by (auto simp: files_ok_def split: option.splits)
  then have "refs_ok dg (AList.update r r ?dm)"
    using assms(2) by (rule refs_ok_update)
  then show ?thesis
    using assms unfolding files_ok_def
    by (auto simp: AList.update_conv' deref_def refs_ok_def)
qed

lemma register_files_files_ok:
  "files_ok dg \<Longrightarrow> deref dg r \<noteq> None \<Longrightarrow> files_ok (register_files Dir r fs dg)"
proof (induction fs arbitrary: dg)
  case Nil
  then show ?case by simp
next
  case (Cons f fs)
  let ?dg = "dg\<lparr>fileMap := AList.update f r (fileMap dg),
           dirMap := AList.update (Dir f)
             (AList.update r r (case map_of (dirMap dg) (Dir f) of None \<Rightarrow> [] | Some dm \<Rightarrow> dm))
             (dirMap dg)\<rparr>"
  have "files_ok ?dg" using Cons.prems by (rule files_ok_step)
  moreover have "deref ?dg r \<noteq> None" using Cons.prems(2) by (simp add: deref_def)
  ultimately show ?case using Cons.IH[of ?dg] by simp
qed

subsection \<open>Registering a package\<close>

lemma deref_register_package:
  "deref (register_package Dir pkg dg) = (deref dg)(raw_ID pkg \<mapsto> new_Package pkg)"
  by (simp add: register_package_def Let_def new_Package_def deref_def fun_eq_iff AList.update_conv')

lemma packageMap_register_package:
  "packageMap (register_package Dir pkg dg) = AList.update (raw_ID pkg) (new_Package pkg) (packageMap dg)"
  by (simp add: register_package_def Let_def new_Package_def)

lemma packagePathMap_register_package:
  "map_of (packagePathMap (register_package Dir pkg dg)) =
     (map_of (packagePathMap dg))(raw_PkgPath pkg \<mapsto>
        (case map_of (packagePathMap dg) (raw_PkgPath pkg) of None \<Rightarrow> [] | Some ps \<Rightarrow> ps) @ [raw_ID pkg])"
  by (simp add: register_package_def Let_def AList.update_conv')

lemma register_package_store_ok:
  assumes "store_ok dg"
  shows "store_ok (register_package Dir pkg dg)"
proof -
  let ?g = "register_package Dir pkg dg"
  have sub: "dom (deref dg) \<subseteq> dom (deref ?g)"
    by (auto simp: deref_register_package)
  have d: "distinct (map fst (packageMap ?g))"
    using assms by (simp add: packageMap_register_package store_ok_def AList.distinct_update)
  have "ID P = r \<and> refs_ok ?g (Dependencies P) \<and> refs_ok ?g (Dependents P)"
    if "deref ?g r = Some P" for r P
  proof (cases "r = raw_ID pkg")
    case True
    with that have "P = new_Package pkg" by (simp add: deref_register_package)
    then show ?thesis using True by (simp add: new_Package_def)
  next
    case False
    with that have "deref dg r = Some P" by (simp add: deref_register_package)
    with assms have "ID P = r" "refs_ok dg (Dependencies P)" "refs_ok dg (Dependents P)"
      by (auto simp: store_ok_def)
    then show ?thesis using refs_ok_mono[OF _ sub] by blast
  qed
  with d show ?thesis unfolding store_ok_def by blast
qed

lemma register_package_paths_ok:
  assumes "paths_ok dg"
  shows "paths_ok (register_package Dir pkg dg)"
proof -
  let ?g = "register_package Dir pkg dg"
  let ?old = "case map_of (packagePathMap dg) (raw_PkgPath pkg) of None \<Rightarrow> [] | Some ps \<Rightarrow> ps"
  have a: "\<exists>ps. map_of (packagePathMap ?g) (PkgPath P) = Some ps \<and> r \<in> set ps"
    if "deref ?g r = Some P" for r P
  proof (cases "r = raw_ID pkg")
    case True
    with that have "PkgPath P = raw_PkgPath pkg"
      by (auto simp: deref_register_package new_Package_def)
    then show ?thesis using True by (simp add: packagePathMap_register_package)
  next
    case False
    with that have "deref dg r = Some P" by (simp add: deref_register_package)
    with assms obtain ps where ps: "map_of (packagePathMap dg) (PkgPath P) = Some ps" "r \<in> set ps"
      unfolding paths_ok_def by blast
    then show ?thesis by (auto simp: packagePathMap_register_package)
  qed
  have b: "deref ?g r \<noteq> None"
    if "map_of (packagePathMap ?g) p = Some ps" "r \<in> set ps" for p ps r
  proof (cases "r = raw_ID pkg")
    case True
    then show ?thesis by (simp add: deref_register_package)
  next
    case False
    have "\<exists>ps'. map_of (packagePathMap dg) p = Some ps' \<and> r \<in> set ps'"
      using that False
      by (auto simp: packagePathMap_register_package split: if_splits option.splits)
    with assms have "deref dg r \<noteq> None" unfolding paths_ok_def by blast
    then show ?thesis using False by (simp add: deref_register_package)
  qed
  show ?thesis unfolding paths_ok_def using a b by blast
qed

lemma files_ok_mono:
  assumes "files_ok dg" "fileMap dg' = fileMap dg" "dirMap dg' = dirMap dg"
    "dom (deref dg) \<subseteq> dom (deref dg')"
  shows "files_ok dg'"
  using assms refs_ok_mono[OF _ assms(4)] unfolding files_ok_def
  by (metis domIff subsetD)

lemma register_package_files_ok:
  assumes "files_ok dg"
  shows "files_ok (register_package Dir pkg dg)"
proof -
  let ?dg2 = "dg\<lparr>packageMap := AList.update (raw_ID pkg) (new_Package pkg) (packageMap dg),
      packagePathMap := AList.update (raw_PkgPath pkg)
                  ((case map_of (packagePathMap dg) (raw_PkgPath pkg) of None \<Rightarrow> [] | Some ps \<Rightarrow> ps) @ [raw_ID pkg])
                  (packagePathMap dg)\<rparr>"
  have ok2: "files_ok ?dg2"
    by (rule files_ok_mono[OF assms]) (auto simp: deref_def AList.update_conv')
  have in2: "deref ?dg2 (raw_ID pkg) \<noteq> None"
    by (simp add: deref_def AList.update_conv')
  have eq: "register_package Dir pkg dg =
      register_files Dir (raw_ID pkg) (OtherFiles pkg)
        (register_files Dir (raw_ID pkg) (IgnoredFiles pkg)
          (register_files Dir (raw_ID pkg) (CompiledGoFiles pkg)
            (register_files Dir (raw_ID pkg) (GoFiles pkg) ?dg2)))"
    by (simp add: register_package_def Let_def new_Package_def)
  show ?thesis
    unfolding eq using ok2 in2
    by (intro register_files_files_ok) simp_all
qed

lemma register_package_sym_ok:
  assumes "sym_ok dg" "store_ok dg" "deref dg (raw_ID pkg) = None"
  shows "sym_ok (register_package Dir pkg dg)"
proof -
  have no_key: "raw_ID pkg \<notin> fst ` set (Dependencies P) \<and> raw_ID pkg \<notin> fst ` set (Dependents P)"
    if "deref dg r = Some P" for r P
  proof -
    from assms(2) that have "refs_ok dg (Dependencies P)" "refs_ok dg (Dependents P)"
      by (auto simp: store_ok_def)
    then show ?thesis using assms(3) by (auto simp: refs_ok_def)
  qed
  show ?thesis
    unfolding sym_ok_def
  proof (intro allI impI)
    fix p q P Q
    assume p: "deref (register_package Dir pkg dg) p = Some P"
      and q: "deref (register_package Dir pkg dg) q = Some Q"
    show "(q \<in> fst ` set (Dependencies P)) = (p \<in> fst ` set (Dependents Q))"
    proof (cases "p = raw_ID pkg")
      case True
      then have P: "Dependencies P = []" using p by (auto simp: deref_register_package new_Package_def)
      show ?thesis
      proof (cases "q = raw_ID pkg")
        case True
        then have "Dependents Q = []" using q by (auto simp: deref_register_package new_Package_def)
        with P show ?thesis by simp
      next
        case False
        with q have "deref dg q = Some Q" by (simp add: deref_register_package)
        from no_key[OF this] P True show ?thesis by simp
      qed
    next
      case False
      with p have P: "deref dg p = Some P" by (simp add: deref_register_package)
      show ?thesis
      proof (cases "q = raw_ID pkg")
        case True
        then have "Dependents Q = []" using q by (auto simp: deref_register_package new_Package_def)
        with no_key[OF P] True show ?thesis by simp
      next
        case False
        with q have "deref dg q = Some Q" by (simp add: deref_register_package)
        with P assms(1) show ?thesis unfolding sym_ok_def by blast
      qed
    qed
  qed
qed

subsection \<open>Linking importer and imported\<close>

lemma link_effect:
  assumes "deref dg i \<noteq> None" "deref dg j \<noteq> None"
  shows "\<exists>dg'. link i i j j dg = Inr dg' \<and>
           packagePathMap dg' = packagePathMap dg \<and> fileMap dg' = fileMap dg \<and>
           dirMap dg' = dirMap dg \<and>
           map fst (packageMap dg') = map fst (packageMap dg) \<and>
           (\<forall>r. deref dg' r = map_option (linked i j r) (deref dg r))"
proof -
  from assms obtain Pi Pj where Pi: "deref dg i = Some Pi" and Pj: "deref dg j = Some Pj"
    by auto
  have ki: "i \<in> set (map fst (packageMap dg))" and kj: "j \<in> set (map fst (packageMap dg))"
    using Pi Pj by (auto simp: deref_def dest: map_of_SomeD intro: rev_image_eqI)
  let ?dg1 = "dg\<lparr>packageMap := AList.update j (Pj\<lparr>Dependents := AList.update i i (Dependents Pj)\<rparr>) (packageMap dg)\<rparr>"
  have s1: "set_Dependent j i i dg = Inr ?dg1"
    using Pj by (simp add: set_Dependent_def)
  let ?Pi1 = "if i = j then Pj\<lparr>Dependents := AList.update i i (Dependents Pj)\<rparr> else Pi"
  have d1: "deref ?dg1 i = Some ?Pi1"
    using Pi by (simp add: deref_def AList.update_conv')
  let ?dg2 = "?dg1\<lparr>packageMap := AList.update i (?Pi1\<lparr>Dependencies := AList.update j j (Dependencies ?Pi1)\<rparr>) (packageMap ?dg1)\<rparr>"
  have s2: "set_Dependency i j j ?dg1 = Inr ?dg2"
    using d1 by (simp add: set_Dependency_def)
  have l: "link i i j j dg = Inr ?dg2"
    using s1 s2 by (simp add: link_def)
  have keys: "map fst (packageMap ?dg2) = map fst (packageMap dg)"
    using ki kj by (simp add: AList.update_keys)
  have "deref ?dg2 r = map_option (linked i j r) (deref dg r)" for r
    using Pi Pj by (cases "map_of (packageMap dg) r") (auto simp: deref_def AList.update_conv' linked_def)
  with l keys show ?thesis by auto
qed

lemma linked_fields [simp]:
  "ID (linked i j r P) = ID P" "PkgPath (linked i j r P) = PkgPath P"
  "fst ` set (Dependencies (linked i j r P)) = (if r = i then {j} else {}) \<union> fst ` set (Dependencies P)"
  "fst ` set (Dependents (linked i j r P)) = (if r = j then {i} else {}) \<union> fst ` set (Dependents P)"
  by (auto simp: linked_def AList.dom_update)

lemma linked_refs_ok:
  assumes "refs_ok g (Dependencies P)" "refs_ok g (Dependents P)" "deref g i \<noteq> None" "deref g j \<noteq> None"
  shows "refs_ok g (Dependencies (linked i j r P))" "refs_ok g (Dependents (linked i j r P))"
  using assms by (auto simp: linked_def intro: refs_ok_update)

lemma link_wf:
  assumes i: "deref dg i \<noteq> None" and j: "deref dg j \<noteq> None"
  shows "\<exists>dg'. link i i j j dg = Inr dg' \<and> dom (deref dg') = dom (deref dg) \<and>
           (store_ok dg \<longrightarrow> store_ok dg') \<and> (paths_ok dg \<longrightarrow> paths_ok dg') \<and>
           (files_ok dg \<longrightarrow> files_ok dg') \<and> (sym_ok dg \<longrightarrow> sym_ok dg')"
proof -
  from link_effect[OF i j] obtain dg' where
    l: "link i i j j dg = Inr dg'" and
    same: "packagePathMap dg' = packagePathMap dg" "fileMap dg' = fileMap dg" "dirMap dg' = dirMap dg" and
    keys: "map fst (packageMap dg') = map fst (packageMap dg)" and
    d: "\<And>r. deref dg' r = map_option (linked i j r) (deref dg r)"
    by blast
  have dom_eq: "dom (deref dg') = dom (deref dg)"
    by (auto simp: d dom_def)
  have sub: "dom (deref dg) \<subseteq> dom (deref dg')" using dom_eq by simp
  have store: "store_ok dg'" if ok: "store_ok dg"
  proof -
    have "ID P' = r \<and> refs_ok dg' (Dependencies P') \<and> refs_ok dg' (Dependents P')"
      if "deref dg' r = Some P'" for r P'
    proof -
      from that obtain P where P: "deref dg r = Some P" "P' = linked i j r P"
        by (auto simp: d)
      with ok have "ID P = r" "refs_ok dg (Dependencies P)" "refs_ok dg (Dependents P)"
        by (auto simp: store_ok_def)
      with linked_refs_ok[OF _ _ i j, of P r] P(2)
      show ?thesis using refs_ok_mono[OF _ sub] by simp
    qed
    moreover have "distinct (map fst (packageMap dg'))"
      using ok keys by (simp add: store_ok_def)
    ultimately show ?thesis unfolding store_ok_def by blast
  qed
  have paths: "paths_ok dg'" if ok: "paths_ok dg"
  proof -
    have "\<exists>ps. map_of (packagePathMap dg') (PkgPath P') = Some ps \<and> r \<in> set ps"
      if "deref dg' r = Some P'" for r P'
    proof -
      from that obtain P where P: "deref dg r = Some P" "P' = linked i j r P"
        by (auto simp: d)
      with ok show ?thesis unfolding paths_ok_def by (simp add: same)
    qed
    moreover have "deref dg' r \<noteq> None"
      if "map_of (packagePathMap dg') p = Some ps" "r \<in> set ps" for p ps r
    proof -
      from that ok have "deref dg r \<noteq> None" unfolding paths_ok_def by (auto simp: same)
      then show ?thesis by (simp add: d)
    qed
    ultimately show ?thesis unfolding paths_ok_def by blast
  qed
  have files: "files_ok dg'" if ok: "files_ok dg"
    using ok same(2,3) sub by (rule files_ok_mono)
  have sym: "sym_ok dg'" if ok: "sym_ok dg"
    unfolding sym_ok_def
  proof (intro allI impI)
    fix p q P' Q'
    assume "deref dg' p = Some P'" "deref dg' q = Some Q'"
    then obtain P Q where P: "deref dg p = Some P" "P' = linked i j p P"
      and Q: "deref dg q = Some Q" "Q' = linked i j q Q"
      by (auto simp: d)
    from ok P(1) Q(1) have "(q \<in> fst ` set (Dependencies P)) = (p \<in> fst ` set (Dependents Q))"
      unfolding sym_ok_def by blast
    then show "(q \<in> fst ` set (Dependencies P')) = (p \<in> fst ` set (Dependents Q'))"
      using P(2) Q(2) by auto
  qed
  show ?thesis using l dom_eq store paths files sym by blast
qed

lemma register_package_wf:
  assumes "wf_graph dg" "deref dg (raw_ID pkg) = None"
  shows "wf_graph (register_package Dir pkg dg)"
  using assms register_package_store_ok register_package_paths_ok register_package_files_ok
    register_package_sym_ok
  unfolding wf_graph_def by blast

lemma link_wf_graph:
  assumes "wf_graph dg" "deref dg i \<noteq> None" "deref dg j \<noteq> None"
  shows "\<exists>dg'. link i i j j dg = Inr dg' \<and> dom (deref dg') = dom (deref dg) \<and> wf_graph dg'"
  using link_wf[OF assms(2,3)] assms(1) unfolding wf_graph_def by blast

lemma addPackage_addImports_wf:
  "wf_graph dg \<longrightarrow>
     (\<exists>dg'. addPackage Dir pkg dg = Inr (raw_ID pkg, dg') \<and> wf_graph dg' \<and>
            dom (deref dg) \<subseteq> dom (deref dg') \<and> raw_ID pkg \<in> dom (deref dg'))"
  "wf_graph dg \<and> newPackage = pkgID \<and> pkgID \<in> dom (deref dg) \<longrightarrow>
     (\<exists>dg'. addImports Dir newPackage pkgID imps dg = Inr dg' \<and> wf_graph dg' \<and>
            dom (deref dg) \<subseteq> dom (deref dg'))"
proof (induction Dir pkg dg and Dir newPackage pkgID imps dg rule: addPackage_addImports.induct)
  case (1 Dir i p gf cf igf otf imps dg)
  let ?pkg = "RawPackage i p gf cf igf otf imps"
  show ?case
  proof (intro impI)
    assume wf: "wf_graph dg"
    show "\<exists>dg'. addPackage Dir ?pkg dg = Inr (raw_ID ?pkg, dg') \<and> wf_graph dg' \<and>
            dom (deref dg) \<subseteq> dom (deref dg') \<and> raw_ID ?pkg \<in> dom (deref dg')"
    proof (cases "deref dg i")
      case (Some a)
      then show ?thesis using wf by auto
    next
      case None
      let ?dg1 = "register_package Dir ?pkg dg"
      have wf1: "wf_graph ?dg1"
        using wf None by (intro register_package_wf) simp_all
      have in1: "i \<in> dom (deref ?dg1)"
        by (simp add: deref_register_package)
      have sub1: "dom (deref dg) \<subseteq> dom (deref ?dg1)"
        by (auto simp: deref_register_package)
      from "1.IH"[OF None] wf1 in1 obtain dg' where
        r: "addImports Dir i i imps ?dg1 = Inr dg'" "wf_graph dg'" "dom (deref ?dg1) \<subseteq> dom (deref dg')"
        by blast
      have "dom (deref dg) \<subseteq> dom (deref dg')" using sub1 r(3) by (rule subset_trans)
      moreover have "i \<in> dom (deref dg')" using in1 r(3) by blast
      ultimately show ?thesis using None r(1,2) by simp
    qed
  qed
next
  case (2 Dir newPackage pkgID dg)
  then show ?case by simp
next
  case (3 Dir newPackage pkgID importedPkg rest dg)
  show ?case
  proof (intro impI, elim conjE)
    assume wf: "wf_graph dg" and eq: "newPackage = pkgID" and inn: "pkgID \<in> dom (deref dg)"
    from "3.IH"(1) wf obtain dg1 where
      a: "addPackage Dir importedPkg dg = Inr (raw_ID importedPkg, dg1)" "wf_graph dg1"
         "dom (deref dg) \<subseteq> dom (deref dg1)" "raw_ID importedPkg \<in> dom (deref dg1)"
      by blast
    have i1: "deref dg1 pkgID \<noteq> None" using inn a(3) by auto
    have j1: "deref dg1 (raw_ID importedPkg) \<noteq> None" using a(4) by auto
    from link_wf_graph[OF a(2) i1 j1] obtain dg2 where
      l: "link pkgID pkgID (raw_ID importedPkg) (raw_ID importedPkg) dg1 = Inr dg2"
         "dom (deref dg2) = dom (deref dg1)" "wf_graph dg2"
      by blast
    have inn2: "pkgID \<in> dom (deref dg2)" using i1 l(2) by auto
    from "3.IH"(2)[OF a(1) refl, of dg2] l(1) eq inn2 l(3) obtain dg' where
      r: "addImports Dir newPackage pkgID rest dg2 = Inr dg'" "wf_graph dg'"
         "dom (deref dg2) \<subseteq> dom (deref dg')"
      by auto
    show "\<exists>dg'. addImports Dir newPackage pkgID (importedPkg # rest) dg = Inr dg' \<and> wf_graph dg' \<and>
            dom (deref dg) \<subseteq> dom (deref dg')"
    proof -
      have "dom (deref dg) \<subseteq> dom (deref dg')"
        using a(3) l(2) r(3) by blast
      then show ?thesis using a(1) l(1) r(1,2) eq by simp
    qed
  qed
qed

lemma wf_empty_graph: "wf_graph empty_graph"
  by (simp add: wf_graph_def store_ok_def paths_ok_def files_ok_def sym_ok_def empty_graph_def deref_def)

lemma addLoaded_wf:
  "wf_graph dg \<Longrightarrow> \<exists>dg'. addLoaded Dir loaded dg = Inr dg' \<and> wf_graph dg'"
proof (induction loaded arbitrary: dg)
  case Nil
  then show ?case by simp
next
  case (Cons pkg rest)
  from addPackage_addImports_wf(1)[of dg Dir pkg] Cons.prems obtain dg1 where
    a: "addPackage Dir pkg dg = Inr (raw_ID pkg, dg1)" "wf_graph dg1"
    by blast
  from Cons.IH[OF a(2)] a(1) show ?case by simp
qed

lemma BuildDependencyGraph_wf:
  "BuildDependencyGraph Dir loaded = Inr g \<Longrightarrow> wf_graph g"
proof (cases loaded)
  case (Inl err)
  assume "BuildDependencyGraph Dir loaded = Inr g"
  with Inl show ?thesis by (simp add: BuildDependencyGraph_def)
next
  case (Inr loadedPackages)
  assume "BuildDependencyGraph Dir loaded = Inr g"
  with Inr have "addLoaded Dir loadedPackages empty_graph = Inr g"
    by (simp add: BuildDependencyGraph_def)
  with addLoaded_wf[OF wf_empty_graph, of Dir loadedPackages] show ?thesis by auto
qed

lemma BuildDependencyGraph_total:
  "\<exists>g. BuildDependencyGraph Dir (Inr loadedPackages) = Inr g"
  using addLoaded_wf[OF wf_empty_graph, of Dir loadedPackages] by (auto simp: BuildDependencyGraph_def)

section \<open>Both directions of an import are stored\<close>

lemma refs_ok_map_of:
  "refs_ok g m \<Longrightarrow> (map_of m k = Some k) = (k \<in> fst ` set m)"
proof
  assume "map_of m k = Some k"
  then show "k \<in> fst ` set m" by (auto dest: map_of_SomeD intro: rev_image_eqI)
next
  assume r: "refs_ok g m" and "k \<in> fst ` set m"
  then obtain v where "map_of m k = Some v"
    by (metis domD dom_map_of_conv_image_fst)
  moreover from this have "(k, v) \<in> set m" by (rule map_of_SomeD)
  with r have "v = k" by (auto simp: refs_ok_def)
  ultimately show "map_of m k = Some k" by simp
qed

subsection \<open>The walk stores every import\<close>

lemma packages_of_self: "p \<in> set (packages_of p)"
  by (cases p) simp

lemma packages_of_Imports:
  "n \<in> set (packages_of p) \<Longrightarrow> q \<in> set (Imports n) \<Longrightarrow> q \<in> set (packages_of p)"
proof (induction p arbitrary: n rule: packages_of.induct)
  case (1 i p gf cf igf otf imps)
  from "1.prems"(1) consider "n = RawPackage i p gf cf igf otf imps"
    | c where "c \<in> set imps" "n \<in> set (packages_of c)" by auto
  then show ?case
  proof cases
    case 1
    with "1.prems"(2) have "q \<in> set imps" by simp
    then show ?thesis using packages_of_self[of q] by auto
  next
    case 2
    from "1.IH"[OF 2(1) 2(2) "1.prems"(2)] 2(1) show ?thesis by auto
  qed
qed

lemma size_Imports: "q \<in> set (Imports p) \<Longrightarrow> size q < size p"
  by (cases p) (auto simp: less_Suc_eq_le intro: size_list_estimation')


lemma import_stored_iff:
  "import_stored g i j =
     (\<exists>P Q. deref g i = Some P \<and> deref g j = Some Q \<and>
        map_of (Dependencies P) j = Some j \<and> map_of (Dependents Q) i = Some i)"
  by (auto simp: import_stored_def split: option.splits)

lemma import_stored_register_package:
  assumes "deref dg (raw_ID pkg) = None" "import_stored dg a b"
  shows "import_stored (register_package Dir pkg dg) a b"
proof -
  from assms(2) obtain P Q where
    PQ: "deref dg a = Some P" "deref dg b = Some Q"
        "map_of (Dependencies P) b = Some b" "map_of (Dependents Q) a = Some a"
    unfolding import_stored_iff by blast
  from PQ(1,2) assms(1) have "a \<noteq> raw_ID pkg" "b \<noteq> raw_ID pkg" by auto
  with PQ show ?thesis
    unfolding import_stored_iff by (simp add: deref_register_package)
qed

lemma linked_keeps:
  "map_of (Dependencies P) b = Some b \<Longrightarrow> map_of (Dependencies (linked i j r P)) b = Some b"
  "map_of (Dependents P) a = Some a \<Longrightarrow> map_of (Dependents (linked i j r P)) a = Some a"
  by (simp_all add: linked_def AList.update_conv')

lemma linked_adds:
  "map_of (Dependencies (linked i j i P)) j = Some j"
  "map_of (Dependents (linked i j j P)) i = Some i"
  by (simp_all add: linked_def AList.update_conv')

lemma import_stored_link:
  assumes d: "\<forall>r. deref dg' r = map_option (linked i j r) (deref dg r)"
  shows "import_stored dg a b \<longrightarrow> import_stored dg' a b"
    and "deref dg i \<noteq> None \<and> deref dg j \<noteq> None \<longrightarrow> import_stored dg' i j"
proof -
  show "import_stored dg a b \<longrightarrow> import_stored dg' a b"
  proof
    assume "import_stored dg a b"
    then obtain P Q where
      PQ: "deref dg a = Some P" "deref dg b = Some Q"
          "map_of (Dependencies P) b = Some b" "map_of (Dependents Q) a = Some a"
      unfolding import_stored_iff by blast
    have "deref dg' a = Some (linked i j a P)" "deref dg' b = Some (linked i j b Q)"
      using d PQ(1,2) by simp_all
    then show "import_stored dg' a b"
      unfolding import_stored_iff using linked_keeps(1)[OF PQ(3)] linked_keeps(2)[OF PQ(4)] by simp
  qed
  show "deref dg i \<noteq> None \<and> deref dg j \<noteq> None \<longrightarrow> import_stored dg' i j"
  proof
    assume "deref dg i \<noteq> None \<and> deref dg j \<noteq> None"
    then obtain P Q where PQ: "deref dg i = Some P" "deref dg j = Some Q" by auto
    have "deref dg' i = Some (linked i j i P)" "deref dg' j = Some (linked i j j Q)"
      using d PQ by simp_all
    then show "import_stored dg' i j"
      unfolding import_stored_iff using linked_adds by simp
  qed
qed

lemma addPackage_addImports_stored:
  fixes N :: "packages_Package set"
  assumes closed: "\<forall>n \<in> N. set (Imports n) \<subseteq> N"
    and uniq: "\<forall>p \<in> N. \<forall>q \<in> N. raw_ID p = raw_ID q \<longrightarrow> p = q"
  shows
    "\<forall>A dg'. wf_graph dg \<and> pkg \<in> N \<and> A \<subseteq> N \<and> (\<forall>a \<in> A. size pkg < size a) \<and>
        imports_done dg A N \<and> addPackage Dir pkg dg = Inr (raw_ID pkg, dg') \<longrightarrow>
        imports_done dg' A N \<and> (\<forall>a b. import_stored dg a b \<longrightarrow> import_stored dg' a b)"
    "\<forall>A dg'. wf_graph dg \<and> newPackage = pkgID \<and> pkgID \<in> dom (deref dg) \<and> A \<subseteq> N \<and>
        set imps \<subseteq> N \<and> (\<forall>q \<in> set imps. \<forall>a \<in> A. size q < size a) \<and>
        imports_done dg A N \<and> addImports Dir newPackage pkgID imps dg = Inr dg' \<longrightarrow>
        imports_done dg' A N \<and> (\<forall>a b. import_stored dg a b \<longrightarrow> import_stored dg' a b) \<and>
        (\<forall>q \<in> set imps. import_stored dg' pkgID (raw_ID q))"
proof (induction Dir pkg dg and Dir newPackage pkgID imps dg rule: addPackage_addImports.induct)
  case (1 Dir i p gf cf igf otf imps dg)
  let ?pkg = "RawPackage i p gf cf igf otf imps"
  show ?case
  proof (intro allI impI, elim conjE)
    fix A dg'
    assume wf: "wf_graph dg" and inN: "?pkg \<in> N" and AN: "A \<subseteq> N"
      and sz: "\<forall>a \<in> A. size ?pkg < size a" and dn: "imports_done dg A N"
      and run: "addPackage Dir ?pkg dg = Inr (raw_ID ?pkg, dg')"
    show "imports_done dg' A N \<and> (\<forall>a b. import_stored dg a b \<longrightarrow> import_stored dg' a b)"
    proof (cases "deref dg i")
      case (Some a)
      with run have "dg' = dg" by simp
      with dn show ?thesis by simp
    next
      case None
      let ?dg1 = "register_package Dir ?pkg dg"
      from run None have run1: "addImports Dir i i imps ?dg1 = Inr dg'"
        by (simp split: sum.splits)
      have wf1: "wf_graph ?dg1"
        using wf None by (intro register_package_wf) simp_all
      have in1: "i \<in> dom (deref ?dg1)"
        by (simp add: deref_register_package)
      have mono1: "import_stored dg a b \<longrightarrow> import_stored ?dg1 a b" for a b
        using import_stored_register_package[of dg ?pkg a b Dir] None by simp
      have impsN: "set imps \<subseteq> N" using closed inN by fastforce
      have sz1: "\<forall>q \<in> set imps. \<forall>a \<in> insert ?pkg A. size q < size a"
      proof (intro ballI)
        fix q a assume q: "q \<in> set imps" and a: "a \<in> insert ?pkg A"
        from q have "size q < size ?pkg" using size_Imports[of q ?pkg] by simp
        moreover from a sz have "size ?pkg \<le> size a" by auto
        ultimately show "size q < size a" by simp
      qed
      have done1: "imports_done ?dg1 (insert ?pkg A) N"
        unfolding imports_done_def
      proof (intro ballI impI)
        fix n assume n: "n \<in> N" and reg: "raw_ID n \<in> dom (deref ?dg1)"
        show "n \<in> insert ?pkg A \<or>
              (\<forall>q \<in> set (Imports n). import_stored ?dg1 (raw_ID n) (raw_ID q))"
        proof (cases "raw_ID n = i")
          case True
          with uniq n inN have "n = ?pkg" by auto
          then show ?thesis by simp
        next
          case False
          with reg have "raw_ID n \<in> dom (deref dg)" by (auto simp: deref_register_package)
          with dn n have "n \<in> A \<or> (\<forall>q \<in> set (Imports n). import_stored dg (raw_ID n) (raw_ID q))"
            unfolding imports_done_def by blast
          then show ?thesis using mono1 by blast
        qed
      qed
      have ins: "insert ?pkg A \<subseteq> N" using AN inN by simp
      have r0: "imports_done dg' (insert ?pkg A) N \<and>
          (\<forall>a b. import_stored ?dg1 a b \<longrightarrow> import_stored dg' a b) \<and>
          (\<forall>q \<in> set imps. import_stored dg' i (raw_ID q))"
        by (rule "1.IH"[OF None, rule_format, of "insert ?pkg A" dg'])
          (intro conjI refl wf1 in1 ins impsN sz1 done1 run1)
      then have r: "imports_done dg' (insert ?pkg A) N"
        "\<forall>a b. import_stored ?dg1 a b \<longrightarrow> import_stored dg' a b"
        "\<forall>q \<in> set imps. import_stored dg' i (raw_ID q)"
        by blast+
      have "imports_done dg' A N"
        unfolding imports_done_def
      proof (intro ballI impI)
        fix n assume n: "n \<in> N" and reg: "raw_ID n \<in> dom (deref dg')"
        from r(1) n reg have "n \<in> insert ?pkg A \<or>
            (\<forall>q \<in> set (Imports n). import_stored dg' (raw_ID n) (raw_ID q))"
          unfolding imports_done_def by blast
        then show "n \<in> A \<or> (\<forall>q \<in> set (Imports n). import_stored dg' (raw_ID n) (raw_ID q))"
          using r(3) by auto
      qed
      moreover have "\<forall>a b. import_stored dg a b \<longrightarrow> import_stored dg' a b"
        using mono1 r(2) by blast
      ultimately show ?thesis by simp
    qed
  qed
next
  case (2 Dir newPackage pkgID dg)
  then show ?case by simp
next
  case (3 Dir newPackage pkgID importedPkg rest dg)
  show ?case
  proof (intro allI impI, elim conjE)
    fix A dg'
    assume wf: "wf_graph dg" and eq: "newPackage = pkgID" and inn: "pkgID \<in> dom (deref dg)"
      and AN: "A \<subseteq> N" and impsN: "set (importedPkg # rest) \<subseteq> N"
      and sz: "\<forall>q \<in> set (importedPkg # rest). \<forall>a \<in> A. size q < size a"
      and dn: "imports_done dg A N"
      and run: "addImports Dir newPackage pkgID (importedPkg # rest) dg = Inr dg'"
    from addPackage_addImports_wf(1)[of dg Dir importedPkg] wf obtain dg1 where
      a: "addPackage Dir importedPkg dg = Inr (raw_ID importedPkg, dg1)" "wf_graph dg1"
         "dom (deref dg) \<subseteq> dom (deref dg1)" "raw_ID importedPkg \<in> dom (deref dg1)"
      by blast
    have i1: "deref dg1 pkgID \<noteq> None" using inn a(3) by auto
    have j1: "deref dg1 (raw_ID importedPkg) \<noteq> None" using a(4) by auto
    from link_effect[OF i1 j1] obtain dg2 where
      l: "link pkgID pkgID (raw_ID importedPkg) (raw_ID importedPkg) dg1 = Inr dg2" and
      d: "\<forall>r. deref dg2 r = map_option (linked pkgID (raw_ID importedPkg) r) (deref dg1 r)"
      by blast
    from link_wf_graph[OF a(2) i1 j1] l have
      dom2: "dom (deref dg2) = dom (deref dg1)" and wf2: "wf_graph dg2"
      by auto
    from run a(1) l eq have run2: "addImports Dir newPackage pkgID rest dg2 = Inr dg'"
      by simp
    have l': "link newPackage pkgID (raw_ID importedPkg) (raw_ID importedPkg) dg1 = Inr dg2"
      using l eq by simp
    have pN: "importedPkg \<in> N" and restN: "set rest \<subseteq> N" using impsN by simp_all
    have szp: "\<forall>a \<in> A. size importedPkg < size a"
      and szr: "\<forall>q \<in> set rest. \<forall>a \<in> A. size q < size a"
      using sz by simp_all
    have s0: "imports_done dg1 A N \<and> (\<forall>a b. import_stored dg a b \<longrightarrow> import_stored dg1 a b)"
      by (rule "3.IH"(1)[rule_format, of A dg1]) (intro conjI wf pN AN szp dn a(1))
    then have s1: "imports_done dg1 A N" "\<forall>a b. import_stored dg a b \<longrightarrow> import_stored dg1 a b"
      by blast+
    note m2 = import_stored_link[OF d]
    have done2: "imports_done dg2 A N"
      using s1(1) m2(1) dom2 unfolding imports_done_def by blast
    have inn2: "pkgID \<in> dom (deref dg2)" using i1 dom2 by auto
    have s2: "imports_done dg' A N \<and> (\<forall>a b. import_stored dg2 a b \<longrightarrow> import_stored dg' a b) \<and>
          (\<forall>q \<in> set rest. import_stored dg' pkgID (raw_ID q))"
      by (rule "3.IH"(2)[OF a(1) refl l', rule_format, of A dg'])
        (intro conjI wf2 eq inn2 AN restN szr done2 run2)
    then have s3: "imports_done dg' A N" "\<forall>a b. import_stored dg2 a b \<longrightarrow> import_stored dg' a b"
          "\<forall>q \<in> set rest. import_stored dg' pkgID (raw_ID q)"
      by blast+
    have here: "import_stored dg' pkgID (raw_ID importedPkg)"
      using m2(2) i1 j1 s3(2) by blast
    have "\<forall>a b. import_stored dg a b \<longrightarrow> import_stored dg' a b"
      using s1(2) m2(1) s3(2) by blast
    with s3(1,3) here
    show "imports_done dg' A N \<and> (\<forall>a b. import_stored dg a b \<longrightarrow> import_stored dg' a b) \<and>
        (\<forall>q \<in> set (importedPkg # rest). import_stored dg' pkgID (raw_ID q))"
      by simp
  qed
qed


lemma addLoaded_stored:
  fixes N :: "packages_Package set"
  assumes closed: "\<forall>n \<in> N. set (Imports n) \<subseteq> N"
    and uniq: "\<forall>p \<in> N. \<forall>q \<in> N. raw_ID p = raw_ID q \<longrightarrow> p = q"
  shows "wf_graph dg \<Longrightarrow> set loaded \<subseteq> N \<Longrightarrow> imports_done dg {} N \<Longrightarrow>
         addLoaded Dir loaded dg = Inr g \<Longrightarrow>
         imports_done g {} N \<and> raw_ID ` set loaded \<subseteq> dom (deref g) \<and>
         dom (deref dg) \<subseteq> dom (deref g)"
proof (induction loaded arbitrary: dg)
  case Nil
  then show ?case by simp
next
  case (Cons pkg rest)
  from addPackage_addImports_wf(1)[of dg Dir pkg] Cons.prems(1) obtain dg1 where
    a: "addPackage Dir pkg dg = Inr (raw_ID pkg, dg1)" "wf_graph dg1"
       "dom (deref dg) \<subseteq> dom (deref dg1)" "raw_ID pkg \<in> dom (deref dg1)"
    by blast
  have pN: "pkg \<in> N" and restN: "set rest \<subseteq> N" using Cons.prems(2) by simp_all
  have e: "{} \<subseteq> N" "\<forall>a \<in> {}. size pkg < size a" by simp_all
  have "imports_done dg1 {} N \<and> (\<forall>a b. import_stored dg a b \<longrightarrow> import_stored dg1 a b)"
    by (rule addPackage_addImports_stored(1)[OF closed uniq, rule_format, of dg pkg "{}" Dir dg1])
      (intro conjI Cons.prems(1) pN e Cons.prems(3) a(1))
  then have d1: "imports_done dg1 {} N" by blast
  from Cons.prems(4) a(1) have run: "addLoaded Dir rest dg1 = Inr g" by simp
  from Cons.IH[OF a(2) restN d1 run] have
    r: "imports_done g {} N" "raw_ID ` set rest \<subseteq> dom (deref g)" "dom (deref dg1) \<subseteq> dom (deref g)"
    by simp_all
  have "raw_ID pkg \<in> dom (deref g)" using a(4) r(3) by (rule subsetD[rotated])
  moreover have "dom (deref dg) \<subseteq> dom (deref g)" using a(3) r(3) by (rule subset_trans)
  ultimately show ?case using r(1,2) by simp
qed

lemma imports_done_registered:
  assumes closed: "\<forall>n \<in> N. set (Imports n) \<subseteq> N" and dn: "imports_done g {} N"
  shows "p \<in> N \<Longrightarrow> raw_ID p \<in> dom (deref g) \<Longrightarrow> \<forall>n \<in> set (packages_of p). raw_ID n \<in> dom (deref g)"
proof (induction p rule: packages_of.induct)
  case (1 i p gf cf igf otf imps)
  let ?pkg = "RawPackage i p gf cf igf otf imps"
  from dn "1.prems" have st: "\<forall>q \<in> set imps. import_stored g i (raw_ID q)"
    unfolding imports_done_def by fastforce
  have "\<forall>n \<in> set (packages_of q). raw_ID n \<in> dom (deref g)" if q: "q \<in> set imps" for q
  proof -
    from closed "1.prems"(1) q have "q \<in> N" by fastforce
    moreover from st q have "raw_ID q \<in> dom (deref g)"
      unfolding import_stored_iff by auto
    ultimately show ?thesis using "1.IH"[OF q] by blast
  qed
  with "1.prems"(2) show ?case by auto
qed

lemma loaded_packages_closed:
  "\<forall>n \<in> set (loaded_packages loadedPackages). set (Imports n) \<subseteq> set (loaded_packages loadedPackages)"
  unfolding loaded_packages_def by (auto dest: packages_of_Imports)

lemma BuildDependencyGraph_stores_imports:
  assumes built: "BuildDependencyGraph Dir (Inr loadedPackages) = Inr g"
    and one: "one_object_per_ID loadedPackages"
    and pkg: "pkg \<in> set (loaded_packages loadedPackages)"
    and imp: "importedPkg \<in> set (Imports pkg)"
  shows "import_stored g (raw_ID pkg) (raw_ID importedPkg)"
proof -
  let ?N = "set (loaded_packages loadedPackages)"
  note closed = loaded_packages_closed[of loadedPackages]
  from one have uniq: "\<forall>p \<in> ?N. \<forall>q \<in> ?N. raw_ID p = raw_ID q \<longrightarrow> p = q"
    by (simp add: one_object_per_ID_def)
  from built have run: "addLoaded Dir loadedPackages empty_graph = Inr g"
    by (simp add: BuildDependencyGraph_def)
  have roots: "set loadedPackages \<subseteq> ?N"
    unfolding loaded_packages_def using packages_of_self by auto
  have d0: "imports_done empty_graph {} ?N"
    by (simp add: imports_done_def empty_graph_def deref_def dom_def)
  from addLoaded_stored[OF closed uniq wf_empty_graph roots d0 run] have
    dn: "imports_done g {} ?N" and reg: "raw_ID ` set loadedPackages \<subseteq> dom (deref g)"
    by simp_all
  from pkg obtain root where root: "root \<in> set loadedPackages" "pkg \<in> set (packages_of root)"
    by (auto simp: loaded_packages_def)
  from root(1) roots reg have "root \<in> ?N" "raw_ID root \<in> dom (deref g)" by auto
  from imports_done_registered[OF closed dn this] root(2) have "raw_ID pkg \<in> dom (deref g)"
    by blast
  with dn pkg imp show ?thesis unfolding imports_done_def by blast
qed


subsection \<open>The walk stores imports only\<close>

lemma addPackage_addImports_only:
  fixes N :: "packages_Package set"
  assumes closed: "\<forall>n \<in> N. set (Imports n) \<subseteq> N"
  shows
    "\<forall>dg'. wf_graph dg \<and> pkg \<in> N \<and> only_imports dg N \<and>
        addPackage Dir pkg dg = Inr (raw_ID pkg, dg') \<longrightarrow> only_imports dg' N"
    "\<forall>dg'. wf_graph dg \<and> newPackage = pkgID \<and> pkgID \<in> dom (deref dg) \<and>
        (\<exists>n \<in> N. raw_ID n = pkgID \<and> set imps \<subseteq> set (Imports n)) \<and> only_imports dg N \<and>
        addImports Dir newPackage pkgID imps dg = Inr dg' \<longrightarrow> only_imports dg' N"
proof (induction Dir pkg dg and Dir newPackage pkgID imps dg rule: addPackage_addImports.induct)
  case (1 Dir i p gf cf igf otf imps dg)
  let ?pkg = "RawPackage i p gf cf igf otf imps"
  show ?case
  proof (intro allI impI, elim conjE)
    fix dg'
    assume wf: "wf_graph dg" and inN: "?pkg \<in> N" and only: "only_imports dg N"
      and run: "addPackage Dir ?pkg dg = Inr (raw_ID ?pkg, dg')"
    show "only_imports dg' N"
    proof (cases "deref dg i")
      case (Some a)
      with run have "dg' = dg" by simp
      with only show ?thesis by simp
    next
      case None
      let ?dg1 = "register_package Dir ?pkg dg"
      from run None have run1: "addImports Dir i i imps ?dg1 = Inr dg'"
        by (simp split: sum.splits)
      have wf1: "wf_graph ?dg1"
        using wf None by (intro register_package_wf) simp_all
      have in1: "i \<in> dom (deref ?dg1)"
        by (simp add: deref_register_package)
      have only1: "only_imports ?dg1 N"
        unfolding only_imports_def
      proof (intro allI impI, elim conjE)
        fix r P k
        assume P: "deref ?dg1 r = Some P" and k: "k \<in> fst ` set (Dependencies P)"
        have "r \<noteq> i"
        proof
          assume "r = i"
          with P have "P = new_Package ?pkg" by (simp add: deref_register_package)
          with k show False by (simp add: new_Package_def)
        qed
        with P have "deref dg r = Some P" by (simp add: deref_register_package)
        with only k show "\<exists>n \<in> N. raw_ID n = r \<and> k \<in> raw_ID ` set (Imports n)"
          unfolding only_imports_def by blast
      qed
      have ex: "\<exists>n \<in> N. raw_ID n = i \<and> set imps \<subseteq> set (Imports n)"
        using inN by (intro bexI[of _ ?pkg]) simp_all
      show ?thesis
        by (rule "1.IH"[OF None, rule_format, of dg'])
          (intro conjI refl wf1 in1 ex only1 run1)
    qed
  qed
next
  case (2 Dir newPackage pkgID dg)
  then show ?case by simp
next
  case (3 Dir newPackage pkgID importedPkg rest dg)
  show ?case
  proof (intro allI impI, elim conjE)
    fix dg'
    assume wf: "wf_graph dg" and eq: "newPackage = pkgID" and inn: "pkgID \<in> dom (deref dg)"
      and ex: "\<exists>n \<in> N. raw_ID n = pkgID \<and> set (importedPkg # rest) \<subseteq> set (Imports n)"
      and only: "only_imports dg N"
      and run: "addImports Dir newPackage pkgID (importedPkg # rest) dg = Inr dg'"
    from ex obtain n where n: "n \<in> N" "raw_ID n = pkgID" "importedPkg \<in> set (Imports n)"
      "set rest \<subseteq> set (Imports n)"
      by auto
    from closed n(1,3) have pN: "importedPkg \<in> N" by fastforce
    from addPackage_addImports_wf(1)[of dg Dir importedPkg] wf obtain dg1 where
      a: "addPackage Dir importedPkg dg = Inr (raw_ID importedPkg, dg1)" "wf_graph dg1"
         "dom (deref dg) \<subseteq> dom (deref dg1)" "raw_ID importedPkg \<in> dom (deref dg1)"
      by blast
    have i1: "deref dg1 pkgID \<noteq> None" using inn a(3) by auto
    have j1: "deref dg1 (raw_ID importedPkg) \<noteq> None" using a(4) by auto
    from link_effect[OF i1 j1] obtain dg2 where
      l: "link pkgID pkgID (raw_ID importedPkg) (raw_ID importedPkg) dg1 = Inr dg2" and
      d: "\<forall>r. deref dg2 r = map_option (linked pkgID (raw_ID importedPkg) r) (deref dg1 r)"
      by blast
    have l': "link newPackage pkgID (raw_ID importedPkg) (raw_ID importedPkg) dg1 = Inr dg2"
      using l eq by simp
    from link_wf_graph[OF a(2) i1 j1] l have
      dom2: "dom (deref dg2) = dom (deref dg1)" and wf2: "wf_graph dg2"
      by auto
    from run a(1) l eq have run2: "addImports Dir newPackage pkgID rest dg2 = Inr dg'"
      by simp
    have only1: "only_imports dg1 N"
      by (rule "3.IH"(1)[rule_format, of dg1]) (intro conjI wf pN only a(1))
    have only2: "only_imports dg2 N"
      unfolding only_imports_def
    proof (intro allI impI, elim conjE)
      fix r P' k
      assume P': "deref dg2 r = Some P'" and k: "k \<in> fst ` set (Dependencies P')"
      from P' d obtain P where P: "deref dg1 r = Some P" "P' = linked pkgID (raw_ID importedPkg) r P"
        by auto
      from k P(2) consider "r = pkgID" "k = raw_ID importedPkg" | "k \<in> fst ` set (Dependencies P)"
        by (auto split: if_splits)
      then show "\<exists>n \<in> N. raw_ID n = r \<and> k \<in> raw_ID ` set (Imports n)"
      proof cases
        case 1
        with n(1,2,3) show ?thesis by blast
      next
        case 2
        with only1 P(1) show ?thesis unfolding only_imports_def by blast
      qed
    qed
    have inn2: "pkgID \<in> dom (deref dg2)" using i1 dom2 by auto
    have ex2: "\<exists>n \<in> N. raw_ID n = pkgID \<and> set rest \<subseteq> set (Imports n)"
      using n(1,2,4) by blast
    show "only_imports dg' N"
      by (rule "3.IH"(2)[OF a(1) refl l', rule_format, of dg'])
        (intro conjI wf2 eq inn2 ex2 only2 run2)
  qed
qed

lemma addLoaded_only:
  fixes N :: "packages_Package set"
  assumes closed: "\<forall>n \<in> N. set (Imports n) \<subseteq> N"
  shows "wf_graph dg \<Longrightarrow> set loaded \<subseteq> N \<Longrightarrow> only_imports dg N \<Longrightarrow>
         addLoaded Dir loaded dg = Inr g \<Longrightarrow> only_imports g N"
proof (induction loaded arbitrary: dg)
  case Nil
  then show ?case by simp
next
  case (Cons pkg rest)
  from addPackage_addImports_wf(1)[of dg Dir pkg] Cons.prems(1) obtain dg1 where
    a: "addPackage Dir pkg dg = Inr (raw_ID pkg, dg1)" "wf_graph dg1"
    by blast
  have pN: "pkg \<in> N" and restN: "set rest \<subseteq> N" using Cons.prems(2) by simp_all
  have d1: "only_imports dg1 N"
    by (rule addPackage_addImports_only(1)[OF closed, rule_format, of dg pkg Dir dg1])
      (intro conjI Cons.prems(1) pN Cons.prems(3) a(1))
  from Cons.prems(4) a(1) have run: "addLoaded Dir rest dg1 = Inr g" by simp
  from Cons.IH[OF a(2) restN d1 run] show ?case .
qed

lemma BuildDependencyGraph_stores_only_imports:
  assumes built: "BuildDependencyGraph Dir (Inr loadedPackages) = Inr g"
    and P: "deref g p = Some P" and k: "k \<in> fst ` set (Dependencies P)"
  shows "\<exists>pkg \<in> set (loaded_packages loadedPackages). raw_ID pkg = p \<and>
           (\<exists>importedPkg \<in> set (Imports pkg). raw_ID importedPkg = k)"
proof -
  let ?N = "set (loaded_packages loadedPackages)"
  note closed = loaded_packages_closed[of loadedPackages]
  from built have run: "addLoaded Dir loadedPackages empty_graph = Inr g"
    by (simp add: BuildDependencyGraph_def)
  have roots: "set loadedPackages \<subseteq> ?N"
    unfolding loaded_packages_def using packages_of_self by auto
  have d0: "only_imports empty_graph ?N"
    by (simp add: only_imports_def empty_graph_def deref_def)
  from addLoaded_only[OF closed wf_empty_graph roots d0 run] have "only_imports g ?N" .
  from this[unfolded only_imports_def, rule_format, of p P k, OF conjI[OF P k]]
  obtain n where n: "n \<in> ?N" "raw_ID n = p" "k \<in> raw_ID ` set (Imports n)" by (elim bexE conjE)
  from n(3) obtain q where "q \<in> set (Imports n)" "raw_ID q = k" by (elim imageE) simp
  with n(1,2) show ?thesis by (intro bexI[of _ n] conjI bexI[of _ q])
qed


text \<open>
  Claim C9. In a graph that \<^verbatim>\<open>BuildDependencyGraph\<close> has returned, for any two registered
  packages P and Q: Q is in \<^verbatim>\<open>P.Dependencies\<close> under the ID of Q exactly when P is in
  \<^verbatim>\<open>Q.Dependents\<close> under the ID of P. Every import is stored: when the loaded packages
  have one object per ID, then for every package reachable from them and each of its
  imports, both are registered, the imported package is in the \<^verbatim>\<open>Dependencies\<close> of the
  importer under its ID and the importer is in the \<^verbatim>\<open>Dependents\<close> of the imported package
  under its ID. Nothing else is stored: every entry of a \<^verbatim>\<open>Dependencies\<close> map is an
  import of a loaded package with the ID of the importer. The queries take the graph and
  return no graph, so none of them changes the edges afterwards.
\<close>

theorem edges_symmetric_after_build:
  assumes built: "BuildDependencyGraph Dir loaded = Inr g"
  shows "(\<forall>p q P Q. deref g p = Some P \<longrightarrow> deref g q = Some Q \<longrightarrow>
            ((map_of (Dependencies P) (ID Q) = Some q) = (map_of (Dependents Q) (ID P) = Some p))) \<and>
         (\<forall>loadedPackages. loaded = Inr loadedPackages \<longrightarrow>
            (one_object_per_ID loadedPackages \<longrightarrow>
               (\<forall>pkg \<in> set (loaded_packages loadedPackages). \<forall>importedPkg \<in> set (Imports pkg).
                  import_stored g (raw_ID pkg) (raw_ID importedPkg))) \<and>
            (\<forall>p P k v. deref g p = Some P \<longrightarrow> (k, v) \<in> set (Dependencies P) \<longrightarrow>
               (\<exists>pkg \<in> set (loaded_packages loadedPackages). raw_ID pkg = p \<and>
                  (\<exists>importedPkg \<in> set (Imports pkg). raw_ID importedPkg = k))))"
proof (intro conjI allI impI ballI)
  fix p q P Q
  assume dp: "deref g p = Some P" and dq: "deref g q = Some Q"
  from built have wf: "wf_graph g" by (rule BuildDependencyGraph_wf)
  then have s: "store_ok g" and y: "sym_ok g" by (simp_all add: wf_graph_def)
  from s dp dq have P: "ID P = p" "refs_ok g (Dependencies P)"
    and Q: "ID Q = q" "refs_ok g (Dependents Q)"
    by (auto simp: store_ok_def)
  from y dp dq have "(q \<in> fst ` set (Dependencies P)) = (p \<in> fst ` set (Dependents Q))"
    unfolding sym_ok_def by blast
  then show "(map_of (Dependencies P) (ID Q) = Some q) = (map_of (Dependents Q) (ID P) = Some p)"
    using refs_ok_map_of[OF P(2), of q] refs_ok_map_of[OF Q(2), of p] P(1) Q(1) by simp
next
  fix loadedPackages pkg importedPkg
  assume "loaded = Inr loadedPackages" "one_object_per_ID loadedPackages"
    "pkg \<in> set (loaded_packages loadedPackages)" "importedPkg \<in> set (Imports pkg)"
  with built show "import_stored g (raw_ID pkg) (raw_ID importedPkg)"
    by (intro BuildDependencyGraph_stores_imports[of Dir loadedPackages g pkg importedPkg]) simp_all
next
  fix loadedPackages p P k v
  assume l: "loaded = Inr loadedPackages" and P: "deref g p = Some P"
    and kv: "(k, v) \<in> set (Dependencies P)"
  from kv have k: "k \<in> fst ` set (Dependencies P)" by (rule image_eqI[rotated]) simp
  from built l have "BuildDependencyGraph Dir (Inr loadedPackages) = Inr g" by simp
  from this P k
  show "\<exists>pkg \<in> set (loaded_packages loadedPackages). raw_ID pkg = p \<and>
          (\<exists>importedPkg \<in> set (Imports pkg). raw_ID importedPkg = k)"
    by (rule BuildDependencyGraph_stores_only_imports)
qed

theorem edges_symmetric_after_build_witness:
  "BuildDependencyGraph dir_of (Inr chain) = Inr chain_graph \<and>
   deref chain_graph ''A'' =
     Some \<lparr>ID = ''A'', PkgPath = ''A'', Dependencies = [(''B'', ''B'')], Dependents = []\<rparr> \<and>
   deref chain_graph ''B'' =
     Some \<lparr>ID = ''B'', PkgPath = ''B'', Dependencies = [(''C'', ''C'')], Dependents = [(''A'', ''A'')]\<rparr> \<and>
   map_of (Dependencies \<lparr>ID = ''A'', PkgPath = ''A'', Dependencies = [(''B'', ''B'')], Dependents = []\<rparr>)
     (ID \<lparr>ID = ''B'', PkgPath = ''B'', Dependencies = [(''C'', ''C'')], Dependents = [(''A'', ''A'')]\<rparr>) =
     Some ''B'' \<and>
   map_of (Dependents \<lparr>ID = ''B'', PkgPath = ''B'', Dependencies = [(''C'', ''C'')], Dependents = [(''A'', ''A'')]\<rparr>)
     (ID \<lparr>ID = ''A'', PkgPath = ''A'', Dependencies = [(''B'', ''B'')], Dependents = []\<rparr>) =
     Some ''A'' \<and>
   one_object_per_ID chain \<and>
   RawPackage ''B'' ''B'' [''b/b.go''] [] [] [] [RawPackage ''C'' ''C'' [''c/c.go''] [] [] [] []]
     \<in> set (loaded_packages chain) \<and>
   import_stored chain_graph ''B'' ''C'' \<and>
   (\<exists>pkg \<in> set (loaded_packages chain). raw_ID pkg = ''A'' \<and>
      (\<exists>importedPkg \<in> set (Imports pkg). raw_ID importedPkg = ''B'')) \<and>
   BuildDependencyGraph dir_of (Inr diamond) = Inr diamond_graph \<and>
   one_object_per_ID diamond \<and>
   RawPackage ''B'' ''B'' [''b/b.go''] [] [] [] [RawPackage ''D'' ''D'' [''d/d.go''] [] [] [] []]
     \<in> set (loaded_packages diamond) \<and>
   import_stored diamond_graph ''B'' ''D''"
proof -
  let ?A = "\<lparr>ID = ''A'', PkgPath = ''A'', Dependencies = [(''B'', ''B'')], Dependents = []\<rparr>"
  let ?B = "\<lparr>ID = ''B'', PkgPath = ''B'', Dependencies = [(''C'', ''C'')], Dependents = [(''A'', ''A'')]\<rparr>"
  let ?rC = "RawPackage ''C'' ''C'' [''c/c.go''] [] [] [] []"
  let ?rB = "RawPackage ''B'' ''B'' [''b/b.go''] [] [] [] [?rC]"
  note inst = edges_symmetric_after_build[OF chain_built]
  have a: "deref chain_graph ''A'' = Some ?A"
    by (simp add: chain_graph_def deref_def)
  have b: "deref chain_graph ''B'' = Some ?B"
    by (simp add: chain_graph_def deref_def)
  have l: "map_of (Dependencies ?A) (ID ?B) = Some ''B''" by simp
  from inst have "\<forall>p q P Q. deref chain_graph p = Some P \<longrightarrow> deref chain_graph q = Some Q \<longrightarrow>
      ((map_of (Dependencies P) (ID Q) = Some q) = (map_of (Dependents Q) (ID P) = Some p))"
    by (rule conjunct1)
  then have "deref chain_graph ''A'' = Some ?A \<longrightarrow> deref chain_graph ''B'' = Some ?B \<longrightarrow>
      ((map_of (Dependencies ?A) (ID ?B) = Some ''B'') = (map_of (Dependents ?B) (ID ?A) = Some ''A''))"
    by (elim allE)
  from this[THEN mp, OF a, THEN mp, OF b] l
  have r: "map_of (Dependents ?B) (ID ?A) = Some ''A''" by (rule iffD1)
  have one: "one_object_per_ID chain"
    by (simp add: one_object_per_ID_def loaded_packages_def chain_def)
  have mem: "?rB \<in> set (loaded_packages chain)"
    by (simp add: loaded_packages_def chain_def)
  from inst[THEN conjunct2, THEN spec, of chain, THEN mp, OF refl] have
    fw: "one_object_per_ID chain \<longrightarrow>
         (\<forall>pkg \<in> set (loaded_packages chain). \<forall>importedPkg \<in> set (Imports pkg).
            import_stored chain_graph (raw_ID pkg) (raw_ID importedPkg))" and
    bw: "\<forall>p P k v. deref chain_graph p = Some P \<longrightarrow> (k, v) \<in> set (Dependencies P) \<longrightarrow>
         (\<exists>pkg \<in> set (loaded_packages chain). raw_ID pkg = p \<and>
            (\<exists>importedPkg \<in> set (Imports pkg). raw_ID importedPkg = k))"
    by (rule conjunct1, rule conjunct2)
  from fw[THEN mp, OF one, THEN bspec, OF mem, THEN bspec, of ?rC]
  have st: "import_stored chain_graph ''B'' ''C''" by simp
  have kv: "(''B'', ''B'') \<in> set (Dependencies ?A)" by simp
  from bw[THEN spec, of "''A''", THEN spec, of ?A, THEN spec, of "''B''", THEN spec, of "''B''",
      THEN mp, OF a, THEN mp, OF kv]
  have ex: "\<exists>pkg \<in> set (loaded_packages chain). raw_ID pkg = ''A'' \<and>
      (\<exists>importedPkg \<in> set (Imports pkg). raw_ID importedPkg = ''B'')" .
  let ?rD = "RawPackage ''D'' ''D'' [''d/d.go''] [] [] [] []"
  let ?dB = "RawPackage ''B'' ''B'' [''b/b.go''] [] [] [] [?rD]"
  have one': "one_object_per_ID diamond"
    by code_simp
  have mem': "?dB \<in> set (loaded_packages diamond)"
    by code_simp
  from edges_symmetric_after_build[OF diamond_built, THEN conjunct2, THEN spec, of diamond,
      THEN mp, OF refl, THEN conjunct1, THEN mp, OF one', THEN bspec, OF mem', THEN bspec, of ?rD]
  have st': "import_stored diamond_graph ''B'' ''D''" by simp
  show ?thesis
    by (rule conjI[OF chain_built conjI[OF a conjI[OF b conjI[OF l conjI[OF r
          conjI[OF one conjI[OF mem conjI[OF st conjI[OF ex
          conjI[OF diamond_built conjI[OF one' conjI[OF mem' st']]]]]]]]]]]])
qed

section \<open>The recursive query\<close>

subsection \<open>More fuel changes no result\<close>

text \<open>
  A loop run with a \<open>self\<close> that returns wherever another one returns, and the same
  value, returns what the loop with the other one returns; so a result found with some
  fuel is the result with any larger fuel.
\<close>

lemma edges_loop_mono:
  assumes "\<And>q y. self q = Some y \<Longrightarrow> self' q = Some y"
  shows "edges_loop self g recursive es acc = Some x \<Longrightarrow> edges_loop self' g recursive es acc = Some x"
proof (induction es arbitrary: acc)
  case Nil
  then show ?case by simp
next
  case (Cons e es)
  obtain k r where e: "e = (k, r)" by (cases e)
  show ?case
  proof (cases "deref g r")
    case None
    with Cons.prems e show ?thesis by simp
  next
    case (Some depPkg)
    show ?thesis
    proof (cases recursive)
      case False
      with Cons Some e show ?thesis by simp
    next
      case True
      show ?thesis
      proof (cases "self (PkgPath depPkg)")
        case None
        with Cons.prems Some True e show ?thesis by simp
      next
        case s: (Some y)
        then have s': "self' (PkgPath depPkg) = Some y" by (rule assms)
        show ?thesis
        proof (cases y)
          case (Inl err)
          with Cons.prems Some True e s have "x = Inl err" by simp
          with Some True e s' Inl show ?thesis by simp
        next
          case (Inr deps)
          with Cons.prems Some True e s have
            "edges_loop self g recursive es (merge_into deps (AList.update (ID depPkg) r acc)) = Some x"
            by simp
          from Cons.IH[OF this] Some True e s' Inr show ?thesis by simp
        qed
      qed
    qed
  qed
qed

lemma pkgs_loop_mono:
  assumes "\<And>q y. self q = Some y \<Longrightarrow> self' q = Some y"
  shows "pkgs_loop self edge g recursive ps acc = Some x \<Longrightarrow> pkgs_loop self' edge g recursive ps acc = Some x"
proof (induction ps arbitrary: acc)
  case Nil
  then show ?case by simp
next
  case (Cons r ps)
  show ?case
  proof (cases "deref g r")
    case None
    with Cons.prems show ?thesis by simp
  next
    case (Some pkg)
    show ?thesis
    proof (cases "edges_loop self g recursive (edge pkg) acc")
      case None
      with Cons.prems Some show ?thesis by simp
    next
      case l: (Some y)
      from edges_loop_mono[OF assms l] have l': "edges_loop self' g recursive (edge pkg) acc = Some y"
        by simp
      show ?thesis
      proof (cases y)
        case (Inl err)
        with Cons.prems Some l have "x = Inl err" by simp
        with Some l' Inl show ?thesis by simp
      next
        case (Inr acc')
        with Cons.prems Some l have "pkgs_loop self edge g recursive ps acc' = Some x" by simp
        from Cons.IH[OF this] Some l' Inr show ?thesis by simp
      qed
    qed
  qed
qed

lemma edge_query_mono:
  assumes "\<And>q y. self q = Some y \<Longrightarrow> self' q = Some y"
  shows "edge_query self edge g p recursive = Some x \<Longrightarrow> edge_query self' edge g p recursive = Some x"
  unfolding edge_query_def
  using pkgs_loop_mono[OF assms] by (auto split: option.splits)

lemma edge_closure_Suc:
  "edge_closure n edge g p recursive = Some x \<Longrightarrow> edge_closure (Suc n) edge g p recursive = Some x"
proof (induction n arbitrary: p recursive x)
  case 0
  have "edge_query (\<lambda>q. edge_closure 0 edge g q True) edge g p recursive = Some x"
  proof (rule edge_query_mono)
    show "edge_query (\<lambda>p. None) edge g p recursive = Some x"
      using "0.prems" by (simp only: edge_closure.simps)
  qed simp
  then show ?case by (simp only: edge_closure.simps)
next
  case (Suc n)
  have "edge_query (\<lambda>q. edge_closure (Suc n) edge g q True) edge g p recursive = Some x"
  proof (rule edge_query_mono)
    show "edge_query (\<lambda>q. edge_closure n edge g q True) edge g p recursive = Some x"
      using Suc.prems by (simp only: edge_closure.simps)
  qed (rule Suc.IH)
  then show ?case by (simp only: edge_closure.simps)
qed

lemma edge_closure_mono:
  "n \<le> m \<Longrightarrow> edge_closure n edge g p recursive = Some x \<Longrightarrow> edge_closure m edge g p recursive = Some x"
proof (induction m)
  case 0
  then show ?case by simp
next
  case (Suc m)
  show ?case
  proof (cases "n = Suc m")
    case True
    with Suc.prems show ?thesis by simp
  next
    case False
    with Suc.prems have "n \<le> m" by simp
    from Suc.IH[OF this Suc.prems(2)] show ?thesis by (rule edge_closure_Suc)
  qed
qed

subsection \<open>Acyclic paths: the recursion returns\<close>

text \<open>
  \<open>path_edges\<close> is finite, so without a cycle its converse is well-founded: a call for a
  path returns once the calls for the finitely many paths after it return, with one more
  nested call than the deepest of them.
\<close>

lemma path_edgesI:
  assumes "map_of (packagePathMap g) p = Some ps" "r \<in> set ps" "deref g r = Some P"
    "(k, v) \<in> set (edge P)" "deref g v = Some Q"
  shows "(p, PkgPath Q) \<in> path_edges edge g"
proof -
  from assms(1) have "(p, ps) \<in> set (packagePathMap g)" by (rule map_of_SomeD)
  then show ?thesis
    unfolding path_edges_def using assms(2-5)
    by (auto intro!: bexI[of _ "(p, ps)"] bexI[of _ r] bexI[of _ "(k, v)"])
qed

lemma finite_path_edges: "finite (path_edges edge g)"
  unfolding path_edges_def by (rule finite_set)

lemma edges_loop_returns:
  assumes "\<And>k v Q. (k, v) \<in> set es \<Longrightarrow> deref g v = Some Q \<Longrightarrow> self (PkgPath Q) \<noteq> None"
  shows "edges_loop self g recursive es acc \<noteq> None"
  using assms
proof (induction es arbitrary: acc)
  case Nil
  then show ?case by simp
next
  case (Cons e es)
  obtain k r where e: "e = (k, r)" by (cases e)
  have rest: "edges_loop self g recursive es acc' \<noteq> None" for acc'
  proof (rule Cons.IH)
    fix k v Q assume "(k, v) \<in> set es" "deref g v = Some Q"
    then show "self (PkgPath Q) \<noteq> None" using Cons.prems[of k v Q] by simp
  qed
  show ?case
  proof (cases "deref g r")
    case None
    with e show ?thesis by simp
  next
    case (Some depPkg)
    with Cons.prems[of k r depPkg] e have "self (PkgPath depPkg) \<noteq> None" by simp
    with Some e rest show ?thesis by (auto split: sum.splits)
  qed
qed

lemma pkgs_loop_returns:
  assumes "\<And>r P k v Q. r \<in> set ps \<Longrightarrow> deref g r = Some P \<Longrightarrow> (k, v) \<in> set (edge P) \<Longrightarrow>
             deref g v = Some Q \<Longrightarrow> self (PkgPath Q) \<noteq> None"
  shows "pkgs_loop self edge g recursive ps acc \<noteq> None"
  using assms
proof (induction ps arbitrary: acc)
  case Nil
  then show ?case by simp
next
  case (Cons r ps)
  have rest: "pkgs_loop self edge g recursive ps acc' \<noteq> None" for acc'
  proof (rule Cons.IH)
    fix r' P k v Q
    assume "r' \<in> set ps" "deref g r' = Some P" "(k, v) \<in> set (edge P)" "deref g v = Some Q"
    then show "self (PkgPath Q) \<noteq> None" using Cons.prems[of r' P k v Q] by simp
  qed
  show ?case
  proof (cases "deref g r")
    case None
    then show ?thesis by simp
  next
    case (Some pkg)
    have "edges_loop self g recursive (edge pkg) acc \<noteq> None"
    proof (rule edges_loop_returns)
      fix k v Q assume "(k, v) \<in> set (edge pkg)" "deref g v = Some Q"
      then show "self (PkgPath Q) \<noteq> None" using Cons.prems[of r pkg k v Q] Some by simp
    qed
    with Some rest show ?thesis by (auto split: sum.splits)
  qed
qed

lemma edge_closure_unknown:
  "map_of (packagePathMap g) pkgPath = None \<Longrightarrow>
   edge_closure n edge g pkgPath recursive = Some (Inl ErrUnknownPackage)"
  by (cases n) (simp_all add: edge_query_def)

lemma edge_closure_returns:
  assumes "acyclic (path_edges edge g)"
  shows "\<exists>n. \<forall>recursive. edge_closure n edge g p recursive \<noteq> None"
proof -
  have "wf ((path_edges edge g)\<inverse>)"
    using finite_path_edges assms by (rule finite_acyclic_wf_converse)
  then show ?thesis
  proof (induction p rule: wf_induct_rule)
    case (less p)
    let ?S = "{q. (p, q) \<in> path_edges edge g}"
    have fin: "finite ?S"
      by (rule finite_subset[of _ "snd ` path_edges edge g"]) (auto simp: finite_path_edges intro: rev_image_eqI)
    have "\<forall>q\<in>?S. \<exists>n. edge_closure n edge g q True \<noteq> None"
    proof
      fix q assume "q \<in> ?S"
      then have "(q, p) \<in> (path_edges edge g)\<inverse>" by simp
      from less.IH[OF this] show "\<exists>n. edge_closure n edge g q True \<noteq> None" by blast
    qed
    from bchoice[OF this] obtain f where f: "\<forall>q\<in>?S. edge_closure (f q) edge g q True \<noteq> None"
      by blast
    define N where "N = Max (insert 0 (f ` ?S))"
    have N: "edge_closure N edge g q True \<noteq> None" if "q \<in> ?S" for q
    proof -
      from that fin have "f q \<le> N" unfolding N_def by (intro Max_ge) auto
      moreover from f that obtain y where "edge_closure (f q) edge g q True = Some y" by auto
      ultimately have "edge_closure N edge g q True = Some y" by (rule edge_closure_mono)
      then show ?thesis by simp
    qed
    have "edge_closure (Suc N) edge g p recursive \<noteq> None" for recursive
    proof (cases "map_of (packagePathMap g) p")
      case None
      then show ?thesis using edge_closure_unknown[of g p "Suc N" edge recursive] by simp
    next
      case (Some ps)
      have "pkgs_loop (\<lambda>q. edge_closure N edge g q True) edge g recursive ps [] \<noteq> None"
      proof (rule pkgs_loop_returns)
        fix r P k v Q
        assume "r \<in> set ps" "deref g r = Some P" "(k, v) \<in> set (edge P)" "deref g v = Some Q"
        with Some have "(p, PkgPath Q) \<in> path_edges edge g" by (rule path_edgesI)
        then show "edge_closure N edge g (PkgPath Q) True \<noteq> None" by (intro N) simp
      qed
      with Some show ?thesis by (simp add: edge_query_def)
    qed
    then show ?case by blast
  qed
qed

lemma edge_closure_fuel:
  assumes "acyclic (path_edges edge g)"
  shows "\<exists>N. \<forall>p recursive. edge_closure N edge g p recursive \<noteq> None"
proof -
  let ?K = "fst ` set (packagePathMap g)"
  from edge_closure_returns[OF assms]
  obtain f where f: "\<And>p recursive. edge_closure (f p) edge g p recursive \<noteq> None"
    by metis
  define N where "N = Max (insert 0 (f ` ?K))"
  have "edge_closure N edge g p recursive \<noteq> None" for p recursive
  proof (cases "map_of (packagePathMap g) p")
    case None
    then show ?thesis using edge_closure_unknown[of g p N edge recursive] by simp
  next
    case (Some ps)
    then have "p \<in> ?K" by (auto dest: map_of_SomeD intro: rev_image_eqI)
    then have "f p \<le> N" unfolding N_def by (intro Max_ge) auto
    moreover from f obtain y where "edge_closure (f p) edge g p recursive = Some y" by fastforce
    ultimately have "edge_closure N edge g p recursive = Some y" by (rule edge_closure_mono)
    then show ?thesis by simp
  qed
  then show ?thesis by blast
qed

subsection \<open>No error on a graph in order\<close>

text \<open>
  Where every pointer is in the store and every stored package has its path registered,
  neither the dereferences nor the look-up of a path in a recursive call can fail.
\<close>

lemma edges_loop_no_error:
  assumes "refs_ok g es" "\<And>v Q. deref g v = Some Q \<Longrightarrow> self (PkgPath Q) \<noteq> Some (Inl e)"
  shows "edges_loop self g recursive es acc \<noteq> Some (Inl e)"
  using assms(1)
proof (induction es arbitrary: acc)
  case Nil
  then show ?case by simp
next
  case (Cons x es)
  obtain k r where x: "x = (k, r)" by (cases x)
  from Cons.prems x obtain depPkg where d: "deref g r = Some depPkg" and es: "refs_ok g es"
    by (auto simp: refs_ok_def)
  have rest: "edges_loop self g recursive es acc' \<noteq> Some (Inl e)" for acc'
    using es by (rule Cons.IH)
  from assms(2)[OF d] d x rest show ?case
    by (auto split: option.splits sum.splits)
qed

lemma pkgs_loop_no_error:
  assumes "\<And>r. r \<in> set ps \<Longrightarrow> deref g r \<noteq> None"
    "\<And>r P. deref g r = Some P \<Longrightarrow> refs_ok g (edge P)"
    "\<And>v Q. deref g v = Some Q \<Longrightarrow> self (PkgPath Q) \<noteq> Some (Inl e)"
  shows "pkgs_loop self edge g recursive ps acc \<noteq> Some (Inl e)"
  using assms(1)
proof (induction ps arbitrary: acc)
  case Nil
  then show ?case by simp
next
  case (Cons r ps)
  from Cons.prems[of r] obtain pkg where d: "deref g r = Some pkg" by auto
  have rest: "pkgs_loop self edge g recursive ps acc' \<noteq> Some (Inl e)" for acc'
  proof (rule Cons.IH)
    fix r' assume "r' \<in> set ps"
    then show "deref g r' \<noteq> None" using Cons.prems[of r'] by simp
  qed
  have "edges_loop self g recursive (edge pkg) acc \<noteq> Some (Inl e)"
    using assms(2)[OF d] assms(3) by (rule edges_loop_no_error)
  with d rest show ?case by (auto split: option.splits sum.splits)
qed

lemma edge_closure_no_error:
  assumes "paths_ok g" "\<And>r P. deref g r = Some P \<Longrightarrow> refs_ok g (edge P)"
  shows "map_of (packagePathMap g) p \<noteq> None \<Longrightarrow> edge_closure n edge g p recursive \<noteq> Some (Inl e)"
proof (induction n arbitrary: p recursive)
  case 0
  then obtain ps where ps: "map_of (packagePathMap g) p = Some ps" by auto
  have valid: "\<And>r. r \<in> set ps \<Longrightarrow> deref g r \<noteq> None"
    using assms(1) ps unfolding paths_ok_def by blast
  have "pkgs_loop (\<lambda>p. None) edge g recursive ps [] \<noteq> Some (Inl e)"
    by (rule pkgs_loop_no_error[OF valid assms(2)]) simp_all
  with ps show ?case by (simp add: edge_query_def)
next
  case (Suc n)
  then obtain ps where ps: "map_of (packagePathMap g) p = Some ps" by auto
  have valid: "\<And>r. r \<in> set ps \<Longrightarrow> deref g r \<noteq> None"
    using assms(1) ps unfolding paths_ok_def by blast
  have "pkgs_loop (\<lambda>q. edge_closure n edge g q True) edge g recursive ps [] \<noteq> Some (Inl e)"
  proof (rule pkgs_loop_no_error[OF valid assms(2)])
    fix v Q assume "deref g v = Some Q"
    with assms(1) have "map_of (packagePathMap g) (PkgPath Q) \<noteq> None"
      unfolding paths_ok_def by fastforce
    then show "edge_closure n edge g (PkgPath Q) True \<noteq> Some (Inl e)" by (rule Suc.IH)
  qed
  with ps show ?case by (simp add: edge_query_def)
qed

subsection \<open>What the result map holds\<close>

text \<open>
  The result of a loop still has the keys it started with, and covers every entry it
  has gone through. Following a chain of edges between units from a variant of the
  path of a call, one entry at a time, stays inside the result of that call.
\<close>

lemma keys_merge_into:
  "fst ` set (merge_into deps acc) = fst ` set deps \<union> fst ` set acc"
proof (induction deps arbitrary: acc)
  case Nil
  then show ?case by (simp add: merge_into_def)
next
  case (Cons a deps)
  obtain k v where a: "a = (k, v)" by (cases a)
  have "merge_into (a # deps) acc = merge_into deps (AList.update k v acc)"
    by (simp add: merge_into_def a)
  then show ?case using Cons.IH[of "AList.update k v acc"] a
    by (auto simp: AList.dom_update)
qed

lemma distinct_merge_into:
  "distinct (map fst acc) \<Longrightarrow> distinct (map fst (merge_into deps acc))"
proof (induction deps arbitrary: acc)
  case Nil
  then show ?case by (simp add: merge_into_def)
next
  case (Cons a deps)
  obtain k v where a: "a = (k, v)" by (cases a)
  have "merge_into (a # deps) acc = merge_into deps (AList.update k v acc)"
    by (simp add: merge_into_def a)
  then show ?case using Cons.IH[of "AList.update k v acc"] Cons.prems
    by (simp add: AList.distinct_update)
qed

lemma refs_ok_snd: "refs_ok g m \<Longrightarrow> map snd m = map fst m"
  by (induction m) (auto simp: refs_ok_def)

lemma covered_mono:
  "covered self g recursive m v \<Longrightarrow> fst ` set m \<subseteq> fst ` set m2 \<Longrightarrow> covered self g recursive m2 v"
  unfolding covered_def by (meson subsetD subset_trans)

lemma edges_loop_spec:
  assumes ids: "\<forall>r P. deref g r = Some P \<longrightarrow> ID P = r"
    and self: "\<forall>q m. self q = Some (Inr m) \<longrightarrow> refs_ok g m"
  shows "refs_ok g es \<Longrightarrow> refs_ok g acc \<Longrightarrow> edges_loop self g recursive es acc = Some (Inr m) \<Longrightarrow>
     refs_ok g m \<and> fst ` set acc \<subseteq> fst ` set m \<and> (\<forall>x \<in> set es. covered self g recursive m (snd x))"
proof (induction es arbitrary: acc)
  case Nil
  then show ?case by simp
next
  case (Cons x es)
  obtain k r where x: "x = (k, r)" by (cases x)
  from Cons.prems(1) have "deref g r \<noteq> None" and es: "refs_ok g es"
    unfolding refs_ok_def x by simp_all
  then obtain depPkg where d: "deref g r = Some depPkg" by blast
  have idr: "ID depPkg = r" using d ids by blast
  let ?acc1 = "AList.update r r acc"
  have acc1: "refs_ok g ?acc1"
    using Cons.prems(2) \<open>deref g r \<noteq> None\<close> by (rule refs_ok_update)
  have k1: "fst ` set ?acc1 = insert r (fst ` set acc)"
    by (simp add: AList.dom_update)
  show ?case
  proof (cases recursive)
    case False
    from Cons.prems(3) have "edges_loop self g recursive es ?acc1 = Some (Inr m)"
      unfolding x using idr by (simp add: d False)
    from Cons.IH[OF es acc1 this] have
      IH: "refs_ok g m" "fst ` set ?acc1 \<subseteq> fst ` set m" "\<forall>x \<in> set es. covered self g recursive m (snd x)"
      by blast+
    from IH(2) have sub: "r \<in> fst ` set m" "fst ` set acc \<subseteq> fst ` set m"
      unfolding k1 by blast+
    have "covered self g recursive m r"
      using sub(1) False by (simp add: covered_def)
    with IH(1,3) sub(2) show ?thesis unfolding x by simp
  next
    case True
    from Cons.prems(3) obtain deps where
      s: "self (PkgPath depPkg) = Some (Inr deps)" and
      l0: "edges_loop self g recursive es (merge_into deps (AList.update (ID depPkg) r acc)) = Some (Inr m)"
      unfolding x by (cases "self (PkgPath depPkg)") (auto simp: d True split: sum.splits)
    from l0 have l: "edges_loop self g recursive es (merge_into deps ?acc1) = Some (Inr m)"
      unfolding idr .
    have "refs_ok g deps" using self s by blast
    then have "refs_ok g (merge_into deps ?acc1)"
      using acc1 by (rule refs_ok_merge_into)
    from Cons.IH[OF es this l] have
      IH: "refs_ok g m" "fst ` set (merge_into deps ?acc1) \<subseteq> fst ` set m"
        "\<forall>x \<in> set es. covered self g recursive m (snd x)"
      by blast+
    from IH(2) have sub: "fst ` set deps \<subseteq> fst ` set m" "r \<in> fst ` set m" "fst ` set acc \<subseteq> fst ` set m"
      unfolding keys_merge_into k1 by blast+
    have "covered self g recursive m r"
      unfolding covered_def using sub(1,2) d s by blast
    with IH(1,3) sub(3) show ?thesis unfolding x by simp
  qed
qed

lemma pkgs_loop_spec:
  assumes ids: "\<forall>r P. deref g r = Some P \<longrightarrow> ID P = r"
    and edge_ok: "\<forall>r P. deref g r = Some P \<longrightarrow> refs_ok g (edge P)"
    and self: "\<forall>q m. self q = Some (Inr m) \<longrightarrow> refs_ok g m"
  shows "refs_ok g acc \<Longrightarrow> pkgs_loop self edge g recursive ps acc = Some (Inr m) \<Longrightarrow>
     refs_ok g m \<and> fst ` set acc \<subseteq> fst ` set m \<and>
     (\<forall>r \<in> set ps. \<forall>P. deref g r = Some P \<longrightarrow>
        (\<forall>x \<in> set (edge P). covered self g recursive m (snd x)))"
proof (induction ps arbitrary: acc)
  case Nil
  then show ?case by simp
next
  case (Cons r ps)
  from Cons.prems(2) obtain pkg acc' where
    d: "deref g r = Some pkg" and
    inner: "edges_loop self g recursive (edge pkg) acc = Some (Inr acc')" and
    rest: "pkgs_loop self edge g recursive ps acc' = Some (Inr m)"
    by (auto split: option.splits sum.splits)
  have "refs_ok g (edge pkg)" using edge_ok d by blast
  from edges_loop_spec[OF ids self this Cons.prems(1) inner] have
    a: "refs_ok g acc'" "fst ` set acc \<subseteq> fst ` set acc'"
       "\<forall>x \<in> set (edge pkg). covered self g recursive acc' (snd x)"
    by blast+
  from Cons.IH[OF a(1) rest] have
    b: "refs_ok g m" "fst ` set acc' \<subseteq> fst ` set m"
       "\<forall>r \<in> set ps. \<forall>P. deref g r = Some P \<longrightarrow>
          (\<forall>x \<in> set (edge P). covered self g recursive m (snd x))"
    by blast+
  have head: "\<forall>x \<in> set (edge pkg). covered self g recursive m (snd x)"
    using a(3) b(2) by (blast intro: covered_mono)
  have sub: "fst ` set acc \<subseteq> fst ` set m" using a(2) b(2) by (rule subset_trans)
  have "\<forall>x \<in> set (edge P). covered self g recursive m (snd x)"
    if "r' \<in> set (r # ps)" "deref g r' = Some P" for r' P
  proof (cases "r' = r")
    case True
    with that(2) d have "P = pkg" by simp
    with head show ?thesis by simp
  next
    case False
    with that b(3) show ?thesis by simp
  qed
  with b(1) sub show ?case by blast
qed

lemma edge_closure_refs_ok:
  assumes ids: "\<forall>r P. deref g r = Some P \<longrightarrow> ID P = r"
    and edge_ok: "\<forall>r P. deref g r = Some P \<longrightarrow> refs_ok g (edge P)"
  shows "\<forall>p recursive m. edge_closure n edge g p recursive = Some (Inr m) \<longrightarrow> refs_ok g m"
proof (induction n)
  case 0
  show ?case
  proof (intro allI impI)
    fix p recursive m
    assume "edge_closure 0 edge g p recursive = Some (Inr m)"
    then obtain ps where l: "pkgs_loop (\<lambda>p. None) edge g recursive ps [] = Some (Inr m)"
      by (auto simp: edge_query_def split: option.splits)
    have "\<forall>q m. (\<lambda>p. None) q = Some (Inr m) \<longrightarrow> refs_ok g m" by simp
    from pkgs_loop_spec[OF ids edge_ok this refs_ok_Nil l] show "refs_ok g m" by simp
  qed
next
  case (Suc n)
  show ?case
  proof (intro allI impI)
    fix p recursive m
    assume "edge_closure (Suc n) edge g p recursive = Some (Inr m)"
    then obtain ps where
      l: "pkgs_loop (\<lambda>q. edge_closure n edge g q True) edge g recursive ps [] = Some (Inr m)"
      by (auto simp: edge_query_def split: option.splits)
    have "\<forall>q m. (\<lambda>q. edge_closure n edge g q True) q = Some (Inr m) \<longrightarrow> refs_ok g m"
      using Suc.IH by simp
    from pkgs_loop_spec[OF ids edge_ok this refs_ok_Nil l] show "refs_ok g m" by simp
  qed
qed

lemma unit_edgesD:
  assumes "distinct (map fst (packageMap g))" "(r, w) \<in> unit_edges edge g"
  shows "\<exists>P k. deref g r = Some P \<and> (k, w) \<in> set (edge P)"
  using assms unfolding unit_edges_def deref_def by auto

lemma edge_closure_sound:
  assumes store: "store_ok g" and paths: "paths_ok g"
    and edge_ok: "\<forall>r P. deref g r = Some P \<longrightarrow> refs_ok g (edge P)"
  shows "edge_closure n edge g p True = Some (Inr m) \<Longrightarrow>
         map_of (packagePathMap g) p = Some ps \<Longrightarrow> r \<in> set ps \<Longrightarrow>
         (r, u) \<in> (unit_edges edge g)\<^sup>+ \<Longrightarrow> u \<in> fst ` set m"
proof (induction n arbitrary: p ps r m u)
  case 0
  have ids: "\<forall>r P. deref g r = Some P \<longrightarrow> ID P = r"
    using store by (simp add: store_ok_def)
  from "0.prems"(4) obtain w where w: "(r, w) \<in> unit_edges edge g"
    by (auto dest: tranclD)
  with store obtain P k where P: "deref g r = Some P" "(k, w) \<in> set (edge P)"
    by (auto simp: store_ok_def dest: unit_edgesD)
  from "0.prems"(1,2) have l: "pkgs_loop (\<lambda>p. None) edge g True ps [] = Some (Inr m)"
    by (simp add: edge_query_def)
  have "\<forall>q m. (\<lambda>p. None) q = Some (Inr m) \<longrightarrow> refs_ok g m" by simp
  from pkgs_loop_spec[OF ids edge_ok this refs_ok_Nil l] "0.prems"(3) P
  have "covered (\<lambda>p. None) g True m (snd (k, w))"
    by blast
  then show ?case by (simp add: covered_def)
next
  case (Suc n)
  have ids: "\<forall>r P. deref g r = Some P \<longrightarrow> ID P = r"
    using store by (simp add: store_ok_def)
  from Suc.prems(4) obtain w where w: "(r, w) \<in> unit_edges edge g" "(w, u) \<in> (unit_edges edge g)\<^sup>*"
    by (auto dest: tranclD)
  with store obtain P k where P: "deref g r = Some P" "(k, w) \<in> set (edge P)"
    by (auto simp: store_ok_def dest: unit_edgesD)
  from Suc.prems(1,2) have
    l: "pkgs_loop (\<lambda>q. edge_closure n edge g q True) edge g True ps [] = Some (Inr m)"
    by (simp add: edge_query_def)
  have refs: "\<forall>q m. (\<lambda>q. edge_closure n edge g q True) q = Some (Inr m) \<longrightarrow> refs_ok g m"
    using edge_closure_refs_ok[OF ids edge_ok, of n] by simp
  from pkgs_loop_spec[OF ids edge_ok refs refs_ok_Nil l] Suc.prems(3) P
  have "covered (\<lambda>q. edge_closure n edge g q True) g True m (snd (k, w))"
    by blast
  then obtain Q m' where
    Q: "w \<in> fst ` set m" "deref g w = Some Q" "edge_closure n edge g (PkgPath Q) True = Some (Inr m')"
       "fst ` set m' \<subseteq> fst ` set m"
    by (auto simp: covered_def)
  show ?case
  proof (cases "w = u")
    case True
    with Q(1) show ?thesis by simp
  next
    case False
    with w(2) have tr: "(w, u) \<in> (unit_edges edge g)\<^sup>+" by (auto dest: rtranclD)
    from paths Q(2) obtain ps' where "map_of (packagePathMap g) (PkgPath Q) = Some ps'" "w \<in> set ps'"
      unfolding paths_ok_def by blast
    from Suc.IH[OF Q(3) this tr] Q(4) show ?thesis by blast
  qed
qed

subsection \<open>The two loops of AffectedPackages\<close>

text \<open>
  On a graph in order the first loop cannot fail and collects the owners of the files
  under distinct keys; the second loop appends the values of that map to \<open>direct\<close> in
  order and covers each of them in \<open>allAffected\<close>.
\<close>

lemma refs_ok_snd_set: "refs_ok g m \<Longrightarrow> snd ` set m = fst ` set m"
  using refs_ok_snd[of g m] by (metis set_map)

lemma directlyAffected_spec:
  assumes store: "store_ok g" and files: "files_ok g"
  shows "refs_ok g acc \<Longrightarrow> distinct (map fst acc) \<Longrightarrow>
     \<exists>da. directlyAffected Dir g files acc = Inr da \<and> refs_ok g da \<and> distinct (map fst da) \<and>
          fst ` set da = fst ` set acc \<union> (\<Union>f \<in> set files. file_owners Dir g f)"
proof (induction files arbitrary: acc)
  case Nil
  then show ?case by simp
next
  case (Cons f fs)
  show ?case
  proof (cases "map_of (fileMap g) f")
    case (Some r)
    with files have "deref g r \<noteq> None" by (simp add: files_ok_def)
    then obtain pkg where d: "deref g r = Some pkg" by blast
    with store have idr: "ID pkg = r" by (simp add: store_ok_def)
    have a: "refs_ok g (AList.update r r acc)"
      using Cons.prems(1) \<open>deref g r \<noteq> None\<close> by (rule refs_ok_update)
    have b: "distinct (map fst (AList.update r r acc))"
      using Cons.prems(2) by (rule AList.distinct_update)
    from Cons.IH[OF a b] obtain da where
      da: "directlyAffected Dir g fs (AList.update r r acc) = Inr da" "refs_ok g da" "distinct (map fst da)"
          "fst ` set da = fst ` set (AList.update r r acc) \<union> (\<Union>f \<in> set fs. file_owners Dir g f)"
      by blast
    have o: "file_owners Dir g f = {r}" using Some by (simp add: file_owners_def)
    have "directlyAffected Dir g (f # fs) acc = Inr da"
      using Some d idr da(1) by simp
    moreover have "fst ` set da = fst ` set acc \<union> (\<Union>f \<in> set (f # fs). file_owners Dir g f)"
      unfolding da(4) using o by (auto simp: AList.dom_update)
    ultimately show ?thesis using da(2,3) by blast
  next
    case None
    show ?thesis
    proof (cases "map_of (dirMap g) (Dir f)")
      case dn: None
      have o: "file_owners Dir g f = {}" using None dn by (simp add: file_owners_def)
      from Cons.IH[OF Cons.prems] obtain da where
        da: "directlyAffected Dir g fs acc = Inr da" "refs_ok g da" "distinct (map fst da)"
            "fst ` set da = fst ` set acc \<union> (\<Union>f \<in> set fs. file_owners Dir g f)"
        by blast
      have "directlyAffected Dir g (f # fs) acc = Inr da"
        using None dn da(1) by simp
      moreover have "fst ` set da = fst ` set acc \<union> (\<Union>f \<in> set (f # fs). file_owners Dir g f)"
        unfolding da(4) using o by simp
      ultimately show ?thesis using da(2,3) by blast
    next
      case (Some dirPkgs)
      with files have dm: "refs_ok g dirPkgs" by (simp add: files_ok_def)
      have o: "file_owners Dir g f = fst ` set dirPkgs"
        using None Some refs_ok_snd_set[OF dm] by (simp add: file_owners_def)
      have a: "refs_ok g (merge_into dirPkgs acc)"
        using dm Cons.prems(1) by (rule refs_ok_merge_into)
      have b: "distinct (map fst (merge_into dirPkgs acc))"
        using Cons.prems(2) by (rule distinct_merge_into)
      from Cons.IH[OF a b] obtain da where
        da: "directlyAffected Dir g fs (merge_into dirPkgs acc) = Inr da" "refs_ok g da" "distinct (map fst da)"
            "fst ` set da = fst ` set (merge_into dirPkgs acc) \<union> (\<Union>f \<in> set fs. file_owners Dir g f)"
        by blast
      have "directlyAffected Dir g (f # fs) acc = Inr da"
        using None Some da(1) by simp
      moreover have "fst ` set da = fst ` set acc \<union> (\<Union>f \<in> set (f # fs). file_owners Dir g f)"
        unfolding da(4) keys_merge_into using o by auto
      ultimately show ?thesis using da(2,3) by blast
    qed
  qed
qed

lemma affected_loop_direct:
  "affected_loop n g da direct allAffected = Some (Inr (direct', all')) \<Longrightarrow> direct' = direct @ map snd da"
proof (induction da arbitrary: direct allAffected)
  case Nil
  then show ?case by simp
next
  case (Cons x da)
  obtain k r where x: "x = (k, r)" by (cases x)
  from Cons.prems obtain pkg deps where
    "affected_loop n g da (direct @ [r]) (merge_into deps (AList.update k r allAffected)) = Some (Inr (direct', all'))"
    unfolding x by (auto split: option.splits sum.splits)
  from Cons.IH[OF this] show ?case unfolding x by simp
qed

lemma affected_loop_spec:
  assumes ids: "\<forall>r P. deref g r = Some P \<longrightarrow> ID P = r"
    and edge_ok: "\<forall>r P. deref g r = Some P \<longrightarrow> refs_ok g (Dependents P)"
  shows "refs_ok g da \<Longrightarrow> refs_ok g allAffected \<Longrightarrow>
     affected_loop n g da direct allAffected = Some (Inr (direct', all')) \<Longrightarrow>
     refs_ok g all' \<and> fst ` set allAffected \<subseteq> fst ` set all' \<and>
     (\<forall>x \<in> set da. covered (\<lambda>p. dependents n g p True) g True all' (snd x))"
proof (induction da arbitrary: direct allAffected)
  case Nil
  then show ?case by simp
next
  case (Cons x da)
  obtain k r where x: "x = (k, r)" by (cases x)
  from Cons.prems(1) have kr: "r = k" and "deref g k \<noteq> None" and da: "refs_ok g da"
    unfolding refs_ok_def x by simp_all
  then obtain pkg where d: "deref g r = Some pkg" by blast
  let ?all1 = "AList.update r r allAffected"
  have all1: "refs_ok g ?all1"
    using Cons.prems(2) \<open>deref g k \<noteq> None\<close> unfolding kr by (rule refs_ok_update)
  from Cons.prems(3) obtain deps where
    s: "dependents n g (PkgPath pkg) True = Some (Inr deps)" and
    l: "affected_loop n g da (direct @ [r]) (merge_into deps ?all1) = Some (Inr (direct', all'))"
    unfolding x kr using d[unfolded kr]
    by (cases "dependents n g (PkgPath pkg) True") (auto split: sum.splits)
  have "refs_ok g deps"
    using edge_closure_refs_ok[OF ids edge_ok, of n] s unfolding dependents_def by blast
  then have "refs_ok g (merge_into deps ?all1)"
    using all1 by (rule refs_ok_merge_into)
  from Cons.IH[OF da this l] have
    IH: "refs_ok g all'" "fst ` set (merge_into deps ?all1) \<subseteq> fst ` set all'"
        "\<forall>x \<in> set da. covered (\<lambda>p. dependents n g p True) g True all' (snd x)"
    by simp_all
  from IH(2) have sub: "fst ` set deps \<subseteq> fst ` set all'" "r \<in> fst ` set all'"
      "fst ` set allAffected \<subseteq> fst ` set all'"
    unfolding keys_merge_into by (auto simp: AList.dom_update)
  have "covered (\<lambda>p. dependents n g p True) g True all' r"
    unfolding covered_def using sub(1,2) d s by (intro conjI impI exI[of _ pkg] exI[of _ deps]) simp_all
  with IH(1,3) sub(3) show ?case unfolding x by simp
qed

lemma affected_loop_no_error:
  assumes "refs_ok g da"
    "\<And>v Q. deref g v = Some Q \<Longrightarrow> dependents n g (PkgPath Q) True \<noteq> Some (Inl e)"
  shows "affected_loop n g da direct allAffected \<noteq> Some (Inl e)"
  using assms(1)
proof (induction da arbitrary: direct allAffected)
  case Nil
  then show ?case by simp
next
  case (Cons x da)
  obtain k r where x: "x = (k, r)" by (cases x)
  from Cons.prems have "deref g r \<noteq> None" and da: "refs_ok g da"
    unfolding refs_ok_def x by auto
  then obtain pkg where d: "deref g r = Some pkg" by blast
  have rest: "affected_loop n g da direct' all' \<noteq> Some (Inl e)" for direct' all'
    using da by (rule Cons.IH)
  from assms(2)[OF d] d rest show ?case
    unfolding x by (cases "dependents n g (PkgPath pkg) True") (auto split: sum.splits)
qed

lemma affected_loop_returns:
  assumes "\<And>p. dependents n g p True \<noteq> None"
  shows "affected_loop n g da direct allAffected \<noteq> None"
proof (induction da arbitrary: direct allAffected)
  case Nil
  then show ?case by simp
next
  case (Cons x da)
  obtain k r where x: "x = (k, r)" by (cases x)
  show ?case
  proof (cases "deref g r")
    case None
    then show ?thesis unfolding x by simp
  next
    case (Some pkg)
    with assms[of "PkgPath pkg"] Cons.IH show ?thesis
      unfolding x by (cases "dependents n g (PkgPath pkg) True") (auto split: sum.splits)
  qed
qed

section \<open>Queries for a path that is not registered\<close>

text \<open>
  Claim C4. For every graph and every import path that has no entry in
  \<^verbatim>\<open>packagePathMap\<close>, each of \<^verbatim>\<open>Dependencies\<close>, \<^verbatim>\<open>Dependents\<close>, \<^verbatim>\<open>TransitiveDependencies\<close>
  and \<^verbatim>\<open>TransitiveDependents\<close> returns \<^verbatim>\<open>ErrUnknownPackage\<close> and no slice, whatever the
  fuel.
\<close>

theorem unknown_path_ErrUnknownPackage:
  assumes "map_of (packagePathMap g) pkgPath = None"
  shows "g_Dependencies n g pkgPath = Some (Inl ErrUnknownPackage) \<and>
         g_Dependents n g pkgPath = Some (Inl ErrUnknownPackage) \<and>
         g_TransitiveDependencies n g pkgPath = Some (Inl ErrUnknownPackage) \<and>
         g_TransitiveDependents n g pkgPath = Some (Inl ErrUnknownPackage)"
  using assms
  by (simp add: g_Dependencies_def g_Dependents_def g_TransitiveDependencies_def
      g_TransitiveDependents_def dependencies_def dependents_def to_slice_def edge_closure_unknown)

theorem unknown_path_ErrUnknownPackage_witness:
  "map_of (packagePathMap chain_graph) ''nonexistent/path'' = None \<and>
   g_Dependencies 0 chain_graph ''nonexistent/path'' = Some (Inl ErrUnknownPackage) \<and>
   g_Dependents 0 chain_graph ''nonexistent/path'' = Some (Inl ErrUnknownPackage) \<and>
   g_TransitiveDependencies 0 chain_graph ''nonexistent/path'' = Some (Inl ErrUnknownPackage) \<and>
   g_TransitiveDependents 0 chain_graph ''nonexistent/path'' = Some (Inl ErrUnknownPackage)"
proof -
  have h: "map_of (packagePathMap chain_graph) ''nonexistent/path'' = None"
    by (simp add: chain_graph_def)
  show ?thesis
    using h unknown_path_ErrUnknownPackage[OF h, of 0] by simp
qed

section \<open>Files outside the graph\<close>

lemma directlyAffected_filter:
  "directlyAffected Dir g files acc =
   directlyAffected Dir g (filter (\<lambda>f. map_of (fileMap g) f \<noteq> None \<or> map_of (dirMap g) (Dir f) \<noteq> None) files) acc"
  by (induction files arbitrary: acc) (auto split: option.splits)

text \<open>
  Claim C6. A changed file that is in \<^verbatim>\<open>fileMap\<close> under no key and whose directory is no key
  of \<^verbatim>\<open>dirMap\<close> contributes nothing: \<^verbatim>\<open>AffectedPackages\<close> returns what it returns without
  such files, and when every file is of that kind it returns no error, an empty
  \<^verbatim>\<open>direct\<close> and an empty \<^verbatim>\<open>transitive\<close>.
\<close>

theorem unmapped_files_contribute_nothing:
  "AffectedPackages Dir n g files =
     AffectedPackages Dir n g
       (filter (\<lambda>f. map_of (fileMap g) f \<noteq> None \<or> map_of (dirMap g) (Dir f) \<noteq> None) files) \<and>
   ((\<forall>f \<in> set files. map_of (fileMap g) f = None \<and> map_of (dirMap g) (Dir f) = None) \<longrightarrow>
      AffectedPackages Dir n g files = Some (Inr ([], [])))"
proof
  show a: "AffectedPackages Dir n g files =
     AffectedPackages Dir n g
       (filter (\<lambda>f. map_of (fileMap g) f \<noteq> None \<or> map_of (dirMap g) (Dir f) \<noteq> None) files)"
    unfolding AffectedPackages_def by (subst directlyAffected_filter) (rule refl)
  show "(\<forall>f \<in> set files. map_of (fileMap g) f = None \<and> map_of (dirMap g) (Dir f) = None) \<longrightarrow>
      AffectedPackages Dir n g files = Some (Inr ([], []))"
  proof
    assume "\<forall>f \<in> set files. map_of (fileMap g) f = None \<and> map_of (dirMap g) (Dir f) = None"
    then have "filter (\<lambda>f. map_of (fileMap g) f \<noteq> None \<or> map_of (dirMap g) (Dir f) \<noteq> None) files = []"
      by (simp add: filter_empty_conv)
    with a show "AffectedPackages Dir n g files = Some (Inr ([], []))"
      by (simp add: AffectedPackages_def packageMapToArray_def)
  qed
qed

theorem unmapped_files_contribute_nothing_witness:
  "map_of (fileMap chain_graph) ''docs/README.md'' = None \<and>
   map_of (dirMap chain_graph) (dir_of ''docs/README.md'') = None \<and>
   map_of (fileMap chain_graph) ''LICENSE'' = None \<and>
   map_of (dirMap chain_graph) (dir_of ''LICENSE'') = None \<and>
   AffectedPackages dir_of 0 chain_graph [''docs/README.md'', ''LICENSE''] = Some (Inr ([], [])) \<and>
   AffectedPackages dir_of 2 chain_graph [''docs/README.md'', ''b/b.go'', ''LICENSE''] =
     AffectedPackages dir_of 2 chain_graph [''b/b.go'']"
proof -
  have h: "map_of (fileMap chain_graph) ''docs/README.md'' = None \<and>
   map_of (dirMap chain_graph) (dir_of ''docs/README.md'') = None \<and>
   map_of (fileMap chain_graph) ''LICENSE'' = None \<and>
   map_of (dirMap chain_graph) (dir_of ''LICENSE'') = None"
    by (simp add: chain_graph_def dir_of_def)
  have f: "filter (\<lambda>f. map_of (fileMap chain_graph) f \<noteq> None \<or> map_of (dirMap chain_graph) (dir_of f) \<noteq> None)
      [''docs/README.md'', ''b/b.go'', ''LICENSE''] = [''b/b.go'']"
    by (simp add: chain_graph_def dir_of_def)
  have all: "\<forall>f \<in> set [''docs/README.md'', ''LICENSE'']. map_of (fileMap chain_graph) f = None \<and>
       map_of (dirMap chain_graph) (dir_of f) = None"
    using h by simp
  have "(\<forall>f \<in> set [''docs/README.md'', ''LICENSE'']. map_of (fileMap chain_graph) f = None \<and>
       map_of (dirMap chain_graph) (dir_of f) = None) \<longrightarrow>
     AffectedPackages dir_of 0 chain_graph [''docs/README.md'', ''LICENSE''] = Some (Inr ([], []))"
    using unmapped_files_contribute_nothing[of dir_of 0 chain_graph "[''docs/README.md'', ''LICENSE'']"]
    by (rule conjunct2)
  then have a: "AffectedPackages dir_of 0 chain_graph [''docs/README.md'', ''LICENSE''] = Some (Inr ([], []))"
    using all by (rule mp)
  have b: "AffectedPackages dir_of 2 chain_graph [''docs/README.md'', ''b/b.go'', ''LICENSE''] =
     AffectedPackages dir_of 2 chain_graph [''b/b.go'']"
    using unmapped_files_contribute_nothing[of dir_of 2 chain_graph "[''docs/README.md'', ''b/b.go'', ''LICENSE'']"]
    unfolding f by (rule conjunct1)
  from h a b show ?thesis by blast
qed

section \<open>AffectedPackages on built graphs\<close>

lemma wf_graph_ids: "wf_graph g \<Longrightarrow> \<forall>r P. deref g r = Some P \<longrightarrow> ID P = r"
  by (simp add: wf_graph_def store_ok_def)

lemma wf_graph_Dependents: "wf_graph g \<Longrightarrow> \<forall>r P. deref g r = Some P \<longrightarrow> refs_ok g (Dependents P)"
  by (simp add: wf_graph_def store_ok_def)

lemma wf_graph_Dependencies: "wf_graph g \<Longrightarrow> \<forall>r P. deref g r = Some P \<longrightarrow> refs_ok g (Dependencies P)"
  by (simp add: wf_graph_def store_ok_def)

lemma dependents_no_error:
  assumes "wf_graph g" "deref g v = Some Q"
  shows "dependents n g (PkgPath Q) True \<noteq> Some (Inl e)"
proof -
  from assms have p: "paths_ok g" by (simp add: wf_graph_def)
  with assms(2) have reg: "map_of (packagePathMap g) (PkgPath Q) \<noteq> None"
    unfolding paths_ok_def by fastforce
  have ok: "\<And>r P. deref g r = Some P \<Longrightarrow> refs_ok g (Dependents P)"
    using wf_graph_Dependents[OF assms(1)] by blast
  show ?thesis
    unfolding dependents_def using p ok reg by (rule edge_closure_no_error)
qed

lemma AffectedPackages_no_error:
  assumes "wf_graph g"
  shows "AffectedPackages Dir n g files \<noteq> Some (Inl e)"
proof -
  from assms have s: "store_ok g" and f: "files_ok g" by (simp_all add: wf_graph_def)
  from directlyAffected_spec[OF s f, of "[]" Dir files] obtain da where
    da: "directlyAffected Dir g files [] = Inr da" "refs_ok g da"
    by auto
  have "affected_loop n g da [] [] \<noteq> Some (Inl e)"
    using da(2) dependents_no_error[OF assms] by (rule affected_loop_no_error)
  with da(1) show ?thesis
    by (auto simp: AffectedPackages_def split: option.splits sum.splits)
qed

text \<open>
  Claim C10. On a graph that \<^verbatim>\<open>BuildDependencyGraph\<close> has returned, \<^verbatim>\<open>AffectedPackages\<close> returns
  no error, whatever the files and the fuel: every package that \<^verbatim>\<open>fileMap\<close> or \<^verbatim>\<open>dirMap\<close>
  points to is in the store with its path registered in \<^verbatim>\<open>packagePathMap\<close>, and so is
  every package that an edge map points to.
\<close>

theorem AffectedPackages_never_errors:
  assumes "BuildDependencyGraph Dir loaded = Inr g"
  shows "AffectedPackages Dir n g files \<noteq> Some (Inl e)"
  using BuildDependencyGraph_wf[OF assms] by (rule AffectedPackages_no_error)

theorem AffectedPackages_never_errors_witness:
  "BuildDependencyGraph dir_of (Inr chain) = Inr chain_graph \<and>
   AffectedPackages dir_of 2 chain_graph [''c/c.go'', ''b/notes.txt'', ''docs/x''] \<noteq> Some (Inl ErrUnknownPackage) \<and>
   AffectedPackages dir_of 2 chain_graph [''c/c.go'', ''b/notes.txt'', ''docs/x''] =
     Some (Inr ([''C'', ''B''], [''C'', ''B'', ''A'']))"
proof -
  have "AffectedPackages dir_of 2 chain_graph [''c/c.go'', ''b/notes.txt'', ''docs/x''] =
     Some (Inr ([''C'', ''B''], [''C'', ''B'', ''A'']))"
    by code_simp
  with chain_built AffectedPackages_never_errors[OF chain_built, of 2 "[''c/c.go'', ''b/notes.txt'', ''docs/x'']" ErrUnknownPackage]
  show ?thesis by blast
qed

text \<open>An edge between units lies over an edge between their paths.\<close>

lemma unit_edge_path_edge:
  assumes wf: "wf_graph g" and e: "(r, v) \<in> unit_edges Dependents g"
  shows "\<exists>P Q. deref g r = Some P \<and> deref g v = Some Q \<and>
           (PkgPath P, PkgPath Q) \<in> path_edges Dependents g"
proof -
  from wf have s: "store_ok g" and p: "paths_ok g" by (simp_all add: wf_graph_def)
  from s e obtain P k where P: "deref g r = Some P" "(k, v) \<in> set (Dependents P)"
    by (auto simp: store_ok_def dest: unit_edgesD)
  from s P have "deref g v \<noteq> None"
    unfolding store_ok_def refs_ok_def by fastforce
  then obtain Q where Q: "deref g v = Some Q" by blast
  from p P(1) obtain ps where ps: "map_of (packagePathMap g) (PkgPath P) = Some ps" "r \<in> set ps"
    unfolding paths_ok_def by blast
  from path_edgesI[where edge = Dependents, OF ps P Q] P(1) Q show ?thesis by blast
qed

lemma paths_acyclic_units_acyclic:
  assumes wf: "wf_graph g" and acyc: "acyclic (path_edges Dependents g)"
  shows "acyclic (unit_edges Dependents g)"
proof -
  let ?f = "\<lambda>r. case deref g r of None \<Rightarrow> [] | Some P \<Rightarrow> PkgPath P"
  have "wf ((path_edges Dependents g)\<inverse>)"
    using finite_path_edges acyc by (rule finite_acyclic_wf_converse)
  then have "wf (inv_image ((path_edges Dependents g)\<inverse>) ?f)" by (rule wf_inv_image)
  then have a: "acyclic (inv_image ((path_edges Dependents g)\<inverse>) ?f)" by (rule wf_acyclic)
  have "(unit_edges Dependents g)\<inverse> \<subseteq> inv_image ((path_edges Dependents g)\<inverse>) ?f"
  proof
    fix x assume x: "x \<in> (unit_edges Dependents g)\<inverse>"
    obtain v r where vr: "x = (v, r)" by (cases x)
    with x have "(r, v) \<in> unit_edges Dependents g" by simp
    from unit_edge_path_edge[OF wf this] vr
    show "x \<in> inv_image ((path_edges Dependents g)\<inverse>) ?f"
      by (auto simp: inv_image_def)
  qed
  with a have "acyclic ((unit_edges Dependents g)\<inverse>)" by (rule acyclic_subset)
  then show ?thesis by simp
qed

text \<open>
  Claim C1. What \<^verbatim>\<open>AffectedPackages\<close> does on a built graph, for every list of files:
  whenever it returns a \<open>direct\<close> and a \<open>transitive\<close>, \<open>transitive\<close> holds every unit of
  \<open>direct\<close> and every unit reachable from one of them along dependent edges between
  units (\<^verbatim>\<open>ChangedPackages\<close> stores this \<open>transitive\<close> as \<^verbatim>\<open>AllChanges\<close>); and it does return
  them, given enough fuel, when the relation between import paths that the recursion of
  \<^verbatim>\<open>dependents\<close> follows (\<open>path_edges Dependents g\<close>: a call for a path reads the
  \<^verbatim>\<open>Dependents\<close> of all variants of that path) has no cycle. By
  \<open>paths_acyclic_units_acyclic\<close> a graph without a cycle between paths has none between
  units. The converse does not hold, and on a graph that has no cycle between units but
  one between paths the call does not return: the input after this theorem.
\<close>

theorem AffectedPackages_sound_and_returns:
  assumes built: "BuildDependencyGraph Dir loaded = Inr g"
  shows "(\<forall>n direct transitive.
            AffectedPackages Dir n g files = Some (Inr (direct, transitive)) \<longrightarrow>
            set direct \<subseteq> set transitive \<and>
            (\<forall>d \<in> set direct. \<forall>u. (d, u) \<in> (unit_edges Dependents g)\<^sup>* \<longrightarrow> u \<in> set transitive)) \<and>
         (acyclic (path_edges Dependents g) \<longrightarrow>
            (\<exists>N. \<forall>n\<ge>N. \<exists>direct transitive.
               AffectedPackages Dir n g files = Some (Inr (direct, transitive))))"
proof (intro conjI allI impI ballI)
  from built have wf: "wf_graph g" by (rule BuildDependencyGraph_wf)
  then have s: "store_ok g" and p: "paths_ok g" and f: "files_ok g" by (simp_all add: wf_graph_def)
  note ids = wf_graph_ids[OF wf] and eok = wf_graph_Dependents[OF wf]
  from directlyAffected_spec[OF s f, of "[]" Dir files] obtain da where
    da: "directlyAffected Dir g files [] = Inr da" "refs_ok g da"
    by auto
  {
    fix n direct transitive
    assume res: "AffectedPackages Dir n g files = Some (Inr (direct, transitive))"
    with da(1) obtain allAffected where
      l: "affected_loop n g da [] [] = Some (Inr (direct, allAffected))" and
      t: "transitive = packageMapToArray allAffected"
      by (auto simp: AffectedPackages_def split: option.splits sum.splits)
    from affected_loop_direct[OF l] have direct: "direct = map snd da" by simp
    from affected_loop_spec[OF ids eok da(2) refs_ok_Nil l] have
      all: "refs_ok g allAffected"
           "\<forall>x \<in> set da. covered (\<lambda>p. dependents n g p True) g True allAffected (snd x)"
      by simp_all
    have tr: "set transitive = fst ` set allAffected"
      unfolding t using refs_ok_snd[OF all(1)] by (simp add: packageMapToArray_def)
    have cov: "covered (\<lambda>p. dependents n g p True) g True allAffected d" if "d \<in> set direct" for d
      using that all(2) unfolding direct by auto
    have sub: "set direct \<subseteq> set transitive"
      using cov unfolding tr covered_def by blast
    have sound: "u \<in> set transitive"
      if d: "d \<in> set direct" and du: "(d, u) \<in> (unit_edges Dependents g)\<^sup>*" for d u
    proof (cases "d = u")
      case True
      with d sub show ?thesis by blast
    next
      case False
      with du have plus: "(d, u) \<in> (unit_edges Dependents g)\<^sup>+" by (auto dest: rtranclD)
      from cov[OF d] obtain Q m' where
        Q: "deref g d = Some Q" "edge_closure n Dependents g (PkgPath Q) True = Some (Inr m')"
           "fst ` set m' \<subseteq> fst ` set allAffected"
        unfolding covered_def dependents_def by blast
      from p Q(1) obtain ps where ps: "map_of (packagePathMap g) (PkgPath Q) = Some ps" "d \<in> set ps"
        unfolding paths_ok_def by blast
      from edge_closure_sound[OF s p eok Q(2) ps plus] Q(3) show ?thesis
        unfolding tr by blast
    qed
    note sub sound
  }
  note sound = this
  show "set direct \<subseteq> set transitive"
    if "AffectedPackages Dir n g files = Some (Inr (direct, transitive))" for n direct transitive
    using that by (rule sound(1))
  show "u \<in> set transitive"
    if "AffectedPackages Dir n g files = Some (Inr (direct, transitive))" "d \<in> set direct"
      "(d, u) \<in> (unit_edges Dependents g)\<^sup>*" for n direct transitive d u
    using that by (rule sound(2))
  show "\<exists>N. \<forall>n\<ge>N. \<exists>direct transitive.
               AffectedPackages Dir n g files = Some (Inr (direct, transitive))"
    if acyc: "acyclic (path_edges Dependents g)"
  proof -
    from edge_closure_fuel[OF acyc] obtain N where
      N: "\<And>p recursive. edge_closure N Dependents g p recursive \<noteq> None"
      by blast
    have "\<exists>direct transitive. AffectedPackages Dir n g files = Some (Inr (direct, transitive))"
      if n: "N \<le> n" for n
    proof -
      have ret: "dependents n g q True \<noteq> None" for q
      proof -
        from N obtain y where "edge_closure N Dependents g q True = Some y" by fastforce
        with n have "edge_closure n Dependents g q True = Some y" by (rule edge_closure_mono)
        then show ?thesis by (simp add: dependents_def)
      qed
      have "affected_loop n g da [] [] \<noteq> None"
        using ret by (rule affected_loop_returns)
      moreover have "affected_loop n g da [] [] \<noteq> Some (Inl e)" for e
        using da(2) dependents_no_error[OF wf] by (rule affected_loop_no_error)
      ultimately obtain direct allAffected where
        "affected_loop n g da [] [] = Some (Inr (direct, allAffected))"
        by (metis not_Some_eq old.prod.exhaust sum.exhaust)
      with da(1) show ?thesis by (simp add: AffectedPackages_def)
    qed
    then show ?thesis by blast
  qed
qed

theorem AffectedPackages_sound_and_returns_witness:
  "BuildDependencyGraph dir_of (Inr chain) = Inr chain_graph \<and>
   acyclic (path_edges Dependents chain_graph) \<and>
   AffectedPackages dir_of 2 chain_graph [''c/c.go''] = Some (Inr ([''C''], [''C'', ''B'', ''A''])) \<and>
   (\<exists>N. \<forall>n\<ge>N. \<exists>direct transitive.
      AffectedPackages dir_of n chain_graph [''c/c.go''] = Some (Inr (direct, transitive))) \<and>
   set [''C''] \<subseteq> set [''C'', ''B'', ''A''] \<and>
   (''C'', ''A'') \<in> (unit_edges Dependents chain_graph)\<^sup>* \<and>
   ''A'' \<in> set [''C'', ''B'', ''A'']"
proof -
  have a: "acyclic (path_edges Dependents chain_graph)"
    by (rule acyclic_rank[where rank = "\<lambda>s. if s = ''C'' then 0 else if s = ''B'' then 1 else 2"])
      (simp add: path_edges_def chain_graph_def deref_def)
  have e: "AffectedPackages dir_of 2 chain_graph [''c/c.go''] = Some (Inr ([''C''], [''C'', ''B'', ''A'']))"
    by code_simp
  note inst = AffectedPackages_sound_and_returns[OF chain_built, of "[''c/c.go'']"]
  from inst have "acyclic (path_edges Dependents chain_graph) \<longrightarrow>
      (\<exists>N. \<forall>n\<ge>N. \<exists>direct transitive.
         AffectedPackages dir_of n chain_graph [''c/c.go''] = Some (Inr (direct, transitive)))"
    by (rule conjunct2)
  then have t: "\<exists>N. \<forall>n\<ge>N. \<exists>direct transitive.
      AffectedPackages dir_of n chain_graph [''c/c.go''] = Some (Inr (direct, transitive))"
    using a by (rule mp)
  from inst have "\<forall>n direct transitive.
      AffectedPackages dir_of n chain_graph [''c/c.go''] = Some (Inr (direct, transitive)) \<longrightarrow>
      set direct \<subseteq> set transitive \<and>
      (\<forall>d \<in> set direct. \<forall>u. (d, u) \<in> (unit_edges Dependents chain_graph)\<^sup>* \<longrightarrow> u \<in> set transitive)"
    by (rule conjunct1)
  then have "AffectedPackages dir_of 2 chain_graph [''c/c.go''] = Some (Inr ([''C''], [''C'', ''B'', ''A''])) \<longrightarrow>
      set [''C''] \<subseteq> set [''C'', ''B'', ''A''] \<and>
      (\<forall>d \<in> set [''C'']. \<forall>u. (d, u) \<in> (unit_edges Dependents chain_graph)\<^sup>* \<longrightarrow>
         u \<in> set [''C'', ''B'', ''A''])"
    by (elim allE)
  then have s: "set [''C''] \<subseteq> set [''C'', ''B'', ''A''] \<and>
      (\<forall>d \<in> set [''C'']. \<forall>u. (d, u) \<in> (unit_edges Dependents chain_graph)\<^sup>* \<longrightarrow>
         u \<in> set [''C'', ''B'', ''A''])"
    using e by (rule mp)
  then have s1: "set [''C''] \<subseteq> set [''C'', ''B'', ''A'']"
    and s2: "\<forall>u. (''C'', u) \<in> (unit_edges Dependents chain_graph)\<^sup>* \<longrightarrow> u \<in> set [''C'', ''B'', ''A'']"
    by simp_all
  have "(''C'', ''B'') \<in> unit_edges Dependents chain_graph"
    and "(''B'', ''A'') \<in> unit_edges Dependents chain_graph"
    by (simp_all add: unit_edges_def chain_graph_def)
  then have r: "(''C'', ''A'') \<in> (unit_edges Dependents chain_graph)\<^sup>*"
    by (meson r_into_rtrancl rtrancl_trans)
  from s2 r have m: "''A'' \<in> set [''C'', ''B'', ''A'']" by blast
  show ?thesis
    by (rule conjI[OF chain_built conjI[OF a conjI[OF e conjI[OF t conjI[OF s1 conjI[OF r m]]]]]])
qed

lemma cross_tests_diverges:
  "dependents n cross_tests_graph ''a'' True = None \<and> dependents n cross_tests_graph ''c'' True = None"
proof (induction n)
  case 0
  show ?case
    by (simp add: dependents_def edge_query_def cross_tests_graph_def deref_def)
next
  case (Suc n)
  then have a: "edge_closure n Dependents cross_tests_graph ''a'' True = None"
    and c: "edge_closure n Dependents cross_tests_graph ''c'' True = None"
    by (simp_all add: dependents_def)
  show ?case
    unfolding dependents_def edge_closure.simps edge_query_def
    using a c by (simp add: cross_tests_graph_def deref_def)
qed

text \<open>
  Claim C1, the input on which the code does not meet it. The graph built from
  \<open>cross_tests\<close> has no cycle between units, neither along \<^verbatim>\<open>Dependents\<close> nor along
  \<^verbatim>\<open>Dependencies\<close>. The file \<^verbatim>\<open>a/a.go\<close> is a file of the unit \<^verbatim>\<open>a [a.test]\<close>, which the unit
  \<^verbatim>\<open>a.test\<close> imports, so both belong to the result. But \<^verbatim>\<open>AffectedPackages\<close> for that file
  runs out of every amount of fuel: the call for path \<^verbatim>\<open>a\<close> calls for path \<^verbatim>\<open>c\<close> (the variant
  \<^verbatim>\<open>c [c.test]\<close> imports \<^verbatim>\<open>a\<close>), which calls for path \<^verbatim>\<open>a\<close> again (the variant \<^verbatim>\<open>a [a.test]\<close>
  imports \<^verbatim>\<open>c\<close>). In Go the recursion ends when the stack is exhausted.
\<close>

theorem unit_level_dag_does_not_suffice:
  "BuildDependencyGraph dir_of (Inr cross_tests) = Inr cross_tests_graph \<and>
   acyclic (unit_edges Dependents cross_tests_graph) \<and>
   acyclic (unit_edges Dependencies cross_tests_graph) \<and>
   directlyAffected dir_of cross_tests_graph [''a/a.go''] [] = Inr [(''a [a.test]'', ''a [a.test]'')] \<and>
   (''a [a.test]'', ''a.test'') \<in> unit_edges Dependents cross_tests_graph \<and>
   (\<forall>n. AffectedPackages dir_of n cross_tests_graph [''a/a.go''] = None)"
proof -
  have 1: "acyclic (unit_edges Dependents cross_tests_graph)"
    by (rule acyclic_rank[where rank = cross_tests_rank])
      (simp add: unit_edges_def cross_tests_graph_def cross_tests_rank_def)
  have 2: "acyclic (unit_edges Dependencies cross_tests_graph)"
    by (rule acyclic_rank[where rank = "\<lambda>s. 2 - cross_tests_rank s"])
      (simp add: unit_edges_def cross_tests_graph_def cross_tests_rank_def)
  have 3: "directlyAffected dir_of cross_tests_graph [''a/a.go''] [] = Inr [(''a [a.test]'', ''a [a.test]'')]"
    by (simp add: cross_tests_graph_def deref_def)
  have 4: "(''a [a.test]'', ''a.test'') \<in> unit_edges Dependents cross_tests_graph"
    by (simp add: unit_edges_def cross_tests_graph_def)
  have 5: "\<forall>n. AffectedPackages dir_of n cross_tests_graph [''a/a.go''] = None"
  proof
    fix n
    have "deref cross_tests_graph ''a [a.test]'' =
        Some \<lparr>ID = ''a [a.test]'', PkgPath = ''a'', Dependencies = [(''c'', ''c'')],
               Dependents = [(''a.test'', ''a.test'')]\<rparr>"
      by (simp add: cross_tests_graph_def deref_def)
    with 3 show "AffectedPackages dir_of n cross_tests_graph [''a/a.go''] = None"
      using cross_tests_diverges[of n] by (simp add: AffectedPackages_def)
  qed
  show ?thesis
    by (rule conjI[OF cross_tests_built conjI[OF 1 conjI[OF 2 conjI[OF 3 conjI[OF 4 5]]]]])
qed

text \<open>
  Claim C5. On a built graph the first loop of \<^verbatim>\<open>AffectedPackages\<close> ends without error
  with a map \<^verbatim>\<open>directlyAffected\<close> whose keys are distinct, each the ID of the package its
  entry points to, and whose packages are exactly these: for each file, the owner that
  \<^verbatim>\<open>fileMap\<close> has for its exact path, or else every package that \<^verbatim>\<open>dirMap\<close> has under its
  directory, or else none. The slice \<^verbatim>\<open>direct\<close> that \<^verbatim>\<open>AffectedPackages\<close> returns is the list
  of the values of this map.
\<close>

theorem directly_affected_set:
  assumes "BuildDependencyGraph Dir loaded = Inr g"
  shows "\<exists>da. directlyAffected Dir g files [] = Inr da \<and>
           distinct (map fst da) \<and>
           (\<forall>x \<in> set da. \<exists>P. deref g (snd x) = Some P \<and> ID P = fst x) \<and>
           snd ` set da =
             (\<Union>f \<in> set files.
                case map_of (fileMap g) f of
                  Some r \<Rightarrow> {r}
                | None \<Rightarrow> (case map_of (dirMap g) (Dir f) of
                             Some dirPkgs \<Rightarrow> snd ` set dirPkgs
                           | None \<Rightarrow> {})) \<and>
           (\<forall>n direct transitive.
              AffectedPackages Dir n g files = Some (Inr (direct, transitive)) \<longrightarrow>
              direct = map snd da)"
proof -
  from assms have wf: "wf_graph g" by (rule BuildDependencyGraph_wf)
  then have s: "store_ok g" and f: "files_ok g" by (simp_all add: wf_graph_def)
  from directlyAffected_spec[OF s f, of "[]" Dir files] obtain da where
    da: "directlyAffected Dir g files [] = Inr da" "refs_ok g da" "distinct (map fst da)"
        "fst ` set da = (\<Union>f \<in> set files. file_owners Dir g f)"
    by auto
  have ids: "\<exists>P. deref g (snd x) = Some P \<and> ID P = fst x" if "x \<in> set da" for x
  proof -
    from that da(2) have "snd x = fst x" "deref g (fst x) \<noteq> None"
      unfolding refs_ok_def by auto
    then obtain P where "deref g (snd x) = Some P" by auto
    with wf_graph_ids[OF wf] \<open>snd x = fst x\<close> show ?thesis by auto
  qed
  have owners: "snd ` set da =
             (\<Union>f \<in> set files.
                case map_of (fileMap g) f of
                  Some r \<Rightarrow> {r}
                | None \<Rightarrow> (case map_of (dirMap g) (Dir f) of
                             Some dirPkgs \<Rightarrow> snd ` set dirPkgs
                           | None \<Rightarrow> {}))"
    using da(4) refs_ok_snd_set[OF da(2)] by (simp add: file_owners_def)
  have direct: "direct = map snd da"
    if "AffectedPackages Dir n g files = Some (Inr (direct, transitive))" for n direct transitive
  proof -
    from that da(1) obtain allAffected where
      "affected_loop n g da [] [] = Some (Inr (direct, allAffected))"
      by (auto simp: AffectedPackages_def split: option.splits sum.splits)
    from affected_loop_direct[OF this] show ?thesis by simp
  qed
  show ?thesis
  proof (intro exI[of _ da] conjI allI impI ballI)
    show "directlyAffected Dir g files [] = Inr da" by (rule da(1))
    show "distinct (map fst da)" by (rule da(3))
    show "\<exists>P. deref g (snd x) = Some P \<and> ID P = fst x" if "x \<in> set da" for x
      using that by (rule ids)
    show "snd ` set da =
             (\<Union>f \<in> set files.
                case map_of (fileMap g) f of
                  Some r \<Rightarrow> {r}
                | None \<Rightarrow> (case map_of (dirMap g) (Dir f) of
                             Some dirPkgs \<Rightarrow> snd ` set dirPkgs
                           | None \<Rightarrow> {}))"
      by (rule owners)
    show "direct = map snd da"
      if "AffectedPackages Dir n g files = Some (Inr (direct, transitive))" for n direct transitive
      using that by (rule direct)
  qed
qed

theorem directly_affected_set_witness:
  "BuildDependencyGraph dir_of (Inr chain) = Inr chain_graph \<and>
   directlyAffected dir_of chain_graph [''c/c.go'', ''b/notes.txt'', ''c/c.go'', ''docs/x''] [] =
     Inr [(''C'', ''C''), (''B'', ''B'')] \<and>
   AffectedPackages dir_of 2 chain_graph [''c/c.go'', ''b/notes.txt'', ''c/c.go'', ''docs/x''] =
     Some (Inr ([''C'', ''B''], [''C'', ''B'', ''A''])) \<and>
   [''C'', ''B''] = map snd [(''C'', ''C''), (''B'', ''B'')]"
proof -
  let ?files = "[''c/c.go'', ''b/notes.txt'', ''c/c.go'', ''docs/x'']"
  have d: "directlyAffected dir_of chain_graph ?files [] = Inr [(''C'', ''C''), (''B'', ''B'')]"
    by code_simp
  have a: "AffectedPackages dir_of 2 chain_graph ?files = Some (Inr ([''C'', ''B''], [''C'', ''B'', ''A'']))"
    by code_simp
  from directly_affected_set[OF chain_built, of ?files]
  have eq: "[''C'', ''B''] = map snd [(''C'', ''C''), (''B'', ''B'')]"
  proof (elim exE conjE)
    fix da
    assume 1: "directlyAffected dir_of chain_graph ?files [] = Inr da"
      and 2: "\<forall>n direct transitive.
              AffectedPackages dir_of n chain_graph ?files = Some (Inr (direct, transitive)) \<longrightarrow>
              direct = map snd da"
    from 1 d have "da = [(''C'', ''C''), (''B'', ''B'')]" by simp
    moreover from 2 a have "[''C'', ''B''] = map snd da" by blast
    ultimately show ?thesis by simp
  qed
  show ?thesis by (rule conjI[OF chain_built conjI[OF d conjI[OF a eq]]])
qed

section \<open>How often a package is expanded\<close>

text \<open>
  A loop that returns has gone through all of its entries, so its invocations are the
  invocations of the recursive calls for all of them, one after the other.
\<close>

lemma edges_loop_calls_eq:
  "edges_loop self g True es acc = Some (Inr m) \<Longrightarrow>
   edges_loop_calls self self_calls g True es =
     concat (map (\<lambda>(k, v). case deref g v of None \<Rightarrow> [] | Some Q \<Rightarrow> self_calls (PkgPath Q)) es)"
proof (induction es arbitrary: acc)
  case Nil
  then show ?case by simp
next
  case (Cons x es)
  obtain k r where x: "x = (k, r)" by (cases x)
  from Cons.prems obtain depPkg deps where
    d: "deref g r = Some depPkg" and s: "self (PkgPath depPkg) = Some (Inr deps)" and
    l: "edges_loop self g True es (merge_into deps (AList.update (ID depPkg) r acc)) = Some (Inr m)"
    unfolding x by (auto split: option.splits sum.splits)
  from Cons.IH[OF l] d s show ?case unfolding x by simp
qed

lemma edges_loop_any_acc:
  "edges_loop self g recursive es acc = Some (Inr m) \<Longrightarrow>
   \<exists>m'. edges_loop self g recursive es acc' = Some (Inr m')"
proof (induction es arbitrary: acc acc')
  case Nil
  then show ?case by simp
next
  case (Cons x es)
  obtain k r where x: "x = (k, r)" by (cases x)
  from Cons.prems obtain depPkg where d: "deref g r = Some depPkg"
    unfolding x by (auto split: option.splits)
  show ?case
  proof (cases recursive)
    case False
    with Cons.prems d have "edges_loop self g recursive es (AList.update (ID depPkg) r acc) = Some (Inr m)"
      unfolding x by simp
    from Cons.IH[OF this] d False show ?thesis unfolding x by simp
  next
    case True
    with Cons.prems d obtain deps where s: "self (PkgPath depPkg) = Some (Inr deps)" and
      l: "edges_loop self g recursive es (merge_into deps (AList.update (ID depPkg) r acc)) = Some (Inr m)"
      unfolding x by (auto split: option.splits sum.splits)
    from Cons.IH[OF l] d s True show ?thesis unfolding x by simp
  qed
qed

lemma pkgs_loop_calls_eq:
  "pkgs_loop self edge g True ps acc = Some (Inr m) \<Longrightarrow>
   pkgs_loop_calls self self_calls edge g True ps =
     concat (map (\<lambda>r. case deref g r of
                        None \<Rightarrow> []
                      | Some P \<Rightarrow> concat (map (\<lambda>(k, v). case deref g v of
                                                        None \<Rightarrow> []
                                                      | Some Q \<Rightarrow> self_calls (PkgPath Q)) (edge P))) ps)"
proof (induction ps arbitrary: acc)
  case Nil
  then show ?case by simp
next
  case (Cons r ps)
  from Cons.prems obtain pkg acc' where
    d: "deref g r = Some pkg" and
    inner: "edges_loop self g True (edge pkg) acc = Some (Inr acc')" and
    rest: "pkgs_loop self edge g True ps acc' = Some (Inr m)"
    by (auto split: option.splits sum.splits)
  from edges_loop_any_acc[OF inner] obtain m0 where
    ok: "edges_loop self g True (edge pkg) [] = Some (Inr m0)" by blast
  from Cons.IH[OF rest] edges_loop_calls_eq[OF inner] d ok show ?case by simp
qed

text \<open>
  Claim C2, amended. The recursion accumulates into the result map and has no test that
  skips a package already present: a recursive call that returns has called itself once
  for every entry of the edge map of every variant of its path. So the invocations of a
  call are as many as the edge paths that start at its path, not as many as the packages
  it reaches; on the diamond, changing D gives \<open>transitive = {A, B, C, D}\<close> with five
  invocations, two of them for C.
\<close>

theorem every_edge_is_expanded_again:
  assumes "edge_closure (Suc n) edge g pkgPath True = Some (Inr m)"
  shows "edge_closure_calls (Suc n) edge g pkgPath True =
     pkgPath #
     concat (map (\<lambda>r. case deref g r of
                        None \<Rightarrow> []
                      | Some P \<Rightarrow> concat (map (\<lambda>(k, v). case deref g v of
                                                        None \<Rightarrow> []
                                                      | Some Q \<Rightarrow> edge_closure_calls n edge g (PkgPath Q) True)
                                       (edge P)))
       (case map_of (packagePathMap g) pkgPath of None \<Rightarrow> [] | Some ps \<Rightarrow> ps))"
proof -
  from assms obtain ps where
    ps: "map_of (packagePathMap g) pkgPath = Some ps" and
    l: "pkgs_loop (\<lambda>p. edge_closure n edge g p True) edge g True ps [] = Some (Inr m)"
    by (auto simp: edge_query_def split: option.splits)
  from pkgs_loop_calls_eq[OF l] ps show ?thesis
    by (simp add: edge_query_calls_def)
qed

lemma affected_loop_calls_eq:
  "affected_loop n g da direct allAffected = Some (Inr (direct', all')) \<Longrightarrow>
   affected_loop_calls n g da =
     concat (map (\<lambda>r. case deref g r of None \<Rightarrow> [] | Some pkg \<Rightarrow> dependents_calls n g (PkgPath pkg) True)
              (map snd da))"
proof (induction da arbitrary: direct allAffected)
  case Nil
  then show ?case by simp
next
  case (Cons x da)
  obtain k r where x: "x = (k, r)" by (cases x)
  from Cons.prems obtain pkg deps where
    d: "deref g r = Some pkg" and s: "dependents n g (PkgPath pkg) True = Some (Inr deps)" and
    l: "affected_loop n g da (direct @ [r]) (merge_into deps (AList.update k r allAffected)) =
          Some (Inr (direct', all'))"
    unfolding x by (auto split: option.splits sum.splits)
  from Cons.IH[OF l] d s show ?case unfolding x by simp
qed

text \<open>
  Claim C3, amended. Within one call of \<^verbatim>\<open>AffectedPackages\<close> the closure is computed
  anew for each directly affected unit: the invocations of \<^verbatim>\<open>dependents\<close> during the call
  are those of \<^verbatim>\<open>dependents(pkg.PkgPath, true)\<close> for the first unit of \<open>direct\<close>, then
  those for the second, and so on, each starting from an empty result map.
\<close>

theorem closure_recomputed_per_direct_unit:
  assumes "AffectedPackages Dir n g files = Some (Inr (direct, transitive))"
  shows "AffectedPackages_calls Dir n g files =
     concat (map (\<lambda>r. case deref g r of None \<Rightarrow> [] | Some pkg \<Rightarrow> dependents_calls n g (PkgPath pkg) True)
              direct)"
proof -
  from assms obtain da allAffected where
    da: "directlyAffected Dir g files [] = Inr da" and
    l: "affected_loop n g da [] [] = Some (Inr (direct, allAffected))"
    by (auto simp: AffectedPackages_def split: option.splits sum.splits)
  from affected_loop_direct[OF l] have "direct = map snd da" by simp
  with affected_loop_calls_eq[OF l] da show ?thesis
    by (simp add: AffectedPackages_calls_def)
qed

text \<open>
  Claim C2 as stated fails on the diamond: the invocations for a change of D are
  D, A, C, B, C, one more than the packages of the graph, and likewise D is expanded
  twice by \<^verbatim>\<open>dependencies\<close> from C.
\<close>

theorem diamond_expands_C_twice:
  "BuildDependencyGraph dir_of (Inr diamond) = Inr diamond_graph \<and>
   AffectedPackages dir_of 2 diamond_graph [''d/d.go''] = Some (Inr ([''D''], [''D'', ''A'', ''C'', ''B''])) \<and>
   AffectedPackages_calls dir_of 2 diamond_graph [''d/d.go''] = [''D'', ''A'', ''C'', ''B'', ''C''] \<and>
   \<not> distinct (AffectedPackages_calls dir_of 2 diamond_graph [''d/d.go'']) \<and>
   length (packageMap diamond_graph) < length (AffectedPackages_calls dir_of 2 diamond_graph [''d/d.go'']) \<and>
   dependencies 2 diamond_graph ''C'' True = Some (Inr [(''A'', ''A''), (''D'', ''D''), (''B'', ''B'')]) \<and>
   dependencies_calls 2 diamond_graph ''C'' True = [''C'', ''A'', ''D'', ''B'', ''D'']"
proof -
  have 1: "AffectedPackages dir_of 2 diamond_graph [''d/d.go''] = Some (Inr ([''D''], [''D'', ''A'', ''C'', ''B'']))"
    by code_simp
  have 2: "AffectedPackages_calls dir_of 2 diamond_graph [''d/d.go''] = [''D'', ''A'', ''C'', ''B'', ''C'']"
    by code_simp
  have 3: "\<not> distinct (AffectedPackages_calls dir_of 2 diamond_graph [''d/d.go''])"
    unfolding 2 by simp
  have 4: "length (packageMap diamond_graph) < length (AffectedPackages_calls dir_of 2 diamond_graph [''d/d.go''])"
    unfolding 2 by (simp add: diamond_graph_def)
  have 5: "dependencies 2 diamond_graph ''C'' True = Some (Inr [(''A'', ''A''), (''D'', ''D''), (''B'', ''B'')])"
    by code_simp
  have 6: "dependencies_calls 2 diamond_graph ''C'' True = [''C'', ''A'', ''D'', ''B'', ''D'']"
    by code_simp
  show ?thesis
    by (rule conjI[OF diamond_built conjI[OF 1 conjI[OF 2 conjI[OF 3 conjI[OF 4 conjI[OF 5 6]]]]]])
qed

theorem every_edge_is_expanded_again_witness:
  "edge_closure (Suc 1) Dependents diamond_graph ''D'' True =
     Some (Inr [(''A'', ''A''), (''C'', ''C''), (''B'', ''B'')]) \<and>
   edge_closure_calls (Suc 1) Dependents diamond_graph ''D'' True = [''D'', ''A'', ''C'', ''B'', ''C'']"
proof -
  have r: "edge_closure (Suc 1) Dependents diamond_graph ''D'' True =
     Some (Inr [(''A'', ''A''), (''C'', ''C''), (''B'', ''B'')])"
    by code_simp
  have e: "''D'' #
     concat (map (\<lambda>r. case deref diamond_graph r of
                        None \<Rightarrow> []
                      | Some P \<Rightarrow> concat (map (\<lambda>(k, v). case deref diamond_graph v of
                                                        None \<Rightarrow> []
                                                      | Some Q \<Rightarrow> edge_closure_calls 1 Dependents diamond_graph (PkgPath Q) True)
                                       (Dependents P)))
       (case map_of (packagePathMap diamond_graph) ''D'' of None \<Rightarrow> [] | Some ps \<Rightarrow> ps)) =
     [''D'', ''A'', ''C'', ''B'', ''C'']"
    by code_simp
  from every_edge_is_expanded_again[OF r]
  have c: "edge_closure_calls (Suc 1) Dependents diamond_graph ''D'' True = [''D'', ''A'', ''C'', ''B'', ''C'']"
    unfolding e .
  show ?thesis by (rule conjI[OF r c])
qed

text \<open>
  Claim C3 as stated fails: with X and Y both directly affected and Z importing both, Z
  is expanded once while X is processed and once more while Y is processed.
\<close>

theorem shared_dependent_expanded_twice:
  "BuildDependencyGraph dir_of (Inr shared_dependent) = Inr shared_dependent_graph \<and>
   AffectedPackages dir_of 1 shared_dependent_graph [''x/x.go'', ''y/y.go''] =
     Some (Inr ([''X'', ''Y''], [''X'', ''Z'', ''Y''])) \<and>
   AffectedPackages_calls dir_of 1 shared_dependent_graph [''x/x.go'', ''y/y.go''] = [''X'', ''Z'', ''Y'', ''Z''] \<and>
   \<not> distinct (AffectedPackages_calls dir_of 1 shared_dependent_graph [''x/x.go'', ''y/y.go''])"
proof -
  have 1: "AffectedPackages dir_of 1 shared_dependent_graph [''x/x.go'', ''y/y.go''] =
     Some (Inr ([''X'', ''Y''], [''X'', ''Z'', ''Y'']))"
    by code_simp
  have 2: "AffectedPackages_calls dir_of 1 shared_dependent_graph [''x/x.go'', ''y/y.go''] = [''X'', ''Z'', ''Y'', ''Z'']"
    by code_simp
  have 3: "\<not> distinct (AffectedPackages_calls dir_of 1 shared_dependent_graph [''x/x.go'', ''y/y.go''])"
    unfolding 2 by simp
  show ?thesis by (rule conjI[OF shared_dependent_built conjI[OF 1 conjI[OF 2 3]]])
qed

theorem closure_recomputed_per_direct_unit_witness:
  "AffectedPackages dir_of 1 shared_dependent_graph [''x/x.go'', ''y/y.go''] =
     Some (Inr ([''X'', ''Y''], [''X'', ''Z'', ''Y''])) \<and>
   AffectedPackages_calls dir_of 1 shared_dependent_graph [''x/x.go'', ''y/y.go''] =
     dependents_calls 1 shared_dependent_graph ''X'' True @ dependents_calls 1 shared_dependent_graph ''Y'' True \<and>
   dependents_calls 1 shared_dependent_graph ''X'' True = [''X'', ''Z''] \<and>
   dependents_calls 1 shared_dependent_graph ''Y'' True = [''Y'', ''Z'']"
proof -
  have 1: "AffectedPackages dir_of 1 shared_dependent_graph [''x/x.go'', ''y/y.go''] =
     Some (Inr ([''X'', ''Y''], [''X'', ''Z'', ''Y'']))"
    by code_simp
  have x: "deref shared_dependent_graph ''X'' =
      Some \<lparr>ID = ''X'', PkgPath = ''X'', Dependencies = [], Dependents = [(''Z'', ''Z'')]\<rparr>"
    by (simp add: shared_dependent_graph_def deref_def)
  have y: "deref shared_dependent_graph ''Y'' =
      Some \<lparr>ID = ''Y'', PkgPath = ''Y'', Dependencies = [], Dependents = [(''Z'', ''Z'')]\<rparr>"
    by (simp add: shared_dependent_graph_def deref_def)
  from closure_recomputed_per_direct_unit[OF 1]
  have 2: "AffectedPackages_calls dir_of 1 shared_dependent_graph [''x/x.go'', ''y/y.go''] =
     dependents_calls 1 shared_dependent_graph ''X'' True @ dependents_calls 1 shared_dependent_graph ''Y'' True"
    by (simp add: x y)
  have 3: "dependents_calls 1 shared_dependent_graph ''X'' True = [''X'', ''Z'']" by code_simp
  have 4: "dependents_calls 1 shared_dependent_graph ''Y'' True = [''Y'', ''Z'']" by code_simp
  show ?thesis by (rule conjI[OF 1 conjI[OF 2 conjI[OF 3 4]]])
qed

section \<open>UniquePackagePaths\<close>

subsection \<open>Suffixes\<close>

lemma HasSuffix_append [simp]: "HasSuffix (b @ s) s"
  by (simp add: HasSuffix_def)

lemma TrimSuffix_append [simp]: "TrimSuffix (b @ s) s = b"
  by (simp add: TrimSuffix_def)

lemma not_HasSuffix_other:
  "length s = length t \<Longrightarrow> s \<noteq> t \<Longrightarrow> \<not> HasSuffix (b @ t) s"
  by (auto simp: HasSuffix_def)

lemma path_key_test [simp]: "path_key (b @ ''_test'') = b"
  by (simp add: path_key_def)

lemma path_key_binary [simp]: "path_key (b @ ''.test'') = b"
proof -
  have "\<not> HasSuffix (b @ ''.test'') ''_test''"
    by (rule not_HasSuffix_other) simp_all
  then show ?thesis by (simp add: path_key_def)
qed

lemma path_key_base: "\<not> HasSuffix b ''_test'' \<Longrightarrow> \<not> HasSuffix b ''.test'' \<Longrightarrow> path_key b = b"
  by (simp add: path_key_def)

subsection \<open>Keys, order, duplicates\<close>

lemma keys_pkgPathMap_loop:
  "fst ` set (pkgPathMap_loop pkgs m) = fst ` set m \<union> (\<lambda>pkg. path_key (PkgPath pkg)) ` set pkgs"
  by (induction pkgs arbitrary: m) (auto simp: AList.dom_update)

lemma distinct_pkgPathMap_loop:
  "distinct (map fst m) \<Longrightarrow> distinct (map fst (pkgPathMap_loop pkgs m))"
  by (induction pkgs arbitrary: m) (auto simp: AList.distinct_update)

lemma set_UniquePackagePaths:
  "set (UniquePackagePaths pkgs) = (\<lambda>pkg. path_key (PkgPath pkg)) ` set pkgs"
  using keys_pkgPathMap_loop[of pkgs "[]"] by (simp add: UniquePackagePaths_def)

lemma distinct_UniquePackagePaths: "distinct (UniquePackagePaths pkgs)"
  using distinct_pkgPathMap_loop[of "[]" pkgs] by (simp add: UniquePackagePaths_def)

lemma sorted_UniquePackagePaths: "sorted (UniquePackagePaths pkgs)"
  by (simp add: UniquePackagePaths_def)

lemma singleton_list:
  assumes "distinct xs" "set xs = {b}"
  shows "xs = [b]"
proof -
  from assms have "length xs = 1" by (metis distinct_card card_1_singleton_iff One_nat_def is_singletonI is_singleton_altdef)
  then obtain x where "xs = [x]" by (cases xs) auto
  with assms(2) show ?thesis by simp
qed

lemma path_key_shorter:
  "HasSuffix b ''_test'' \<or> HasSuffix b ''.test'' \<Longrightarrow> length (path_key b) < length b"
  by (auto simp: path_key_def TrimSuffix_def HasSuffix_def)

text \<open>
  Claim C7, amended. \<^verbatim>\<open>UniquePackagePaths\<close> returns a sorted list without duplicates of the keys of
  the package paths, where the key of a path ending in \<^verbatim>\<open>_test\<close> or in \<^verbatim>\<open>.test\<close> is the path
  without that suffix, removed once, and the key of any other path is the path itself.
  So a non-empty list of packages whose paths are \<open>b_test\<close> or \<open>b.test\<close> gives the one
  entry \<open>b\<close>, for every \<open>b\<close>; with packages of path \<open>b\<close> itself in the list it still gives
  the one entry \<open>b\<close> when \<open>b\<close> has neither suffix; and when \<open>b\<close> has one of the suffixes, a
  list with a package of path \<open>b\<close> never gives the one entry \<open>b\<close>, because \<open>b\<close> is folded
  too.
\<close>

theorem UniquePackagePaths_folds_sorts_dedups:
  "sorted (UniquePackagePaths pkgs) \<and> distinct (UniquePackagePaths pkgs) \<and>
   set (UniquePackagePaths pkgs) = (\<lambda>pkg. path_key (PkgPath pkg)) ` set pkgs \<and>
   path_key (b @ ''_test'') = b \<and> path_key (b @ ''.test'') = b \<and>
   (pkgs \<noteq> [] \<and>
    (\<forall>pkg \<in> set pkgs. PkgPath pkg = b @ ''_test'' \<or> PkgPath pkg = b @ ''.test'') \<longrightarrow>
    UniquePackagePaths pkgs = [b]) \<and>
   (\<not> HasSuffix b ''_test'' \<and> \<not> HasSuffix b ''.test'' \<longrightarrow>
      path_key b = b \<and>
      (pkgs \<noteq> [] \<and>
       (\<forall>pkg \<in> set pkgs. PkgPath pkg = b \<or> PkgPath pkg = b @ ''_test'' \<or> PkgPath pkg = b @ ''.test'') \<longrightarrow>
       UniquePackagePaths pkgs = [b])) \<and>
   (HasSuffix b ''_test'' \<or> HasSuffix b ''.test'' \<longrightarrow>
      path_key b \<noteq> b \<and>
      (\<forall>pkg \<in> set pkgs. PkgPath pkg = b \<longrightarrow> UniquePackagePaths pkgs \<noteq> [b]))"
proof (intro conjI impI ballI)
  show "sorted (UniquePackagePaths pkgs)" by (rule sorted_UniquePackagePaths)
  show "distinct (UniquePackagePaths pkgs)" by (rule distinct_UniquePackagePaths)
  show "set (UniquePackagePaths pkgs) = (\<lambda>pkg. path_key (PkgPath pkg)) ` set pkgs"
    by (rule set_UniquePackagePaths)
  show "path_key (b @ ''_test'') = b" by simp
  show "path_key (b @ ''.test'') = b" by simp
next
  assume pk: "pkgs \<noteq> [] \<and>
       (\<forall>pkg \<in> set pkgs. PkgPath pkg = b @ ''_test'' \<or> PkgPath pkg = b @ ''.test'')"
  have "path_key (PkgPath pkg) = b" if "pkg \<in> set pkgs" for pkg
    using that pk by auto
  moreover from pk obtain pkg where "pkg \<in> set pkgs" by (cases pkgs) auto
  ultimately have "(\<lambda>pkg. path_key (PkgPath pkg)) ` set pkgs = {b}" by auto
  then have "set (UniquePackagePaths pkgs) = {b}" by (simp add: set_UniquePackagePaths)
  with distinct_UniquePackagePaths show "UniquePackagePaths pkgs = [b]" by (rule singleton_list)
next
  assume "\<not> HasSuffix b ''_test'' \<and> \<not> HasSuffix b ''.test''"
  then show "path_key b = b" by (simp add: path_key_base)
next
  assume base: "\<not> HasSuffix b ''_test'' \<and> \<not> HasSuffix b ''.test''"
    and pk: "pkgs \<noteq> [] \<and>
       (\<forall>pkg \<in> set pkgs. PkgPath pkg = b \<or> PkgPath pkg = b @ ''_test'' \<or> PkgPath pkg = b @ ''.test'')"
  from base have kb: "path_key b = b" by (simp add: path_key_base)
  have "path_key (PkgPath pkg) = b" if "pkg \<in> set pkgs" for pkg
    using that pk kb by auto
  moreover from pk obtain pkg where "pkg \<in> set pkgs" by (cases pkgs) auto
  ultimately have "(\<lambda>pkg. path_key (PkgPath pkg)) ` set pkgs = {b}" by auto
  then have "set (UniquePackagePaths pkgs) = {b}" by (simp add: set_UniquePackagePaths)
  with distinct_UniquePackagePaths show "UniquePackagePaths pkgs = [b]" by (rule singleton_list)
next
  assume "HasSuffix b ''_test'' \<or> HasSuffix b ''.test''"
  from path_key_shorter[OF this] show "path_key b \<noteq> b" by auto
next
  fix pkg
  assume suf: "HasSuffix b ''_test'' \<or> HasSuffix b ''.test''"
    and pkg: "pkg \<in> set pkgs" "PkgPath pkg = b"
  from path_key_shorter[OF suf] have ne: "path_key b \<noteq> b" by auto
  from pkg have "path_key b \<in> set (UniquePackagePaths pkgs)"
    unfolding set_UniquePackagePaths by (intro image_eqI[of _ _ pkg]) simp_all
  with ne show "UniquePackagePaths pkgs \<noteq> [b]" by auto
qed

theorem UniquePackagePaths_folds_sorts_dedups_witness:
  "\<not> HasSuffix ''a/y'' ''_test'' \<and> \<not> HasSuffix ''a/y'' ''.test'' \<and>
   UniquePackagePaths [stand_in ''a/y_test'', stand_in ''a/y'', stand_in ''a/y.test''] = [''a/y''] \<and>
   UniquePackagePaths (map stand_in [''b/x'', ''a/y_test'', ''a/y'', ''b/x'', ''a'']) = [''a'', ''a/y'', ''b/x''] \<and>
   UniquePackagePaths [stand_in ''x_test_test'', stand_in ''x_test.test''] = [''x_test''] \<and>
   HasSuffix ''x_test'' ''_test'' \<and>
   UniquePackagePaths [stand_in ''x_test'', stand_in ''x_test_test''] \<noteq> [''x_test'']"
proof -
  have h: "\<not> HasSuffix ''a/y'' ''_test'' \<and> \<not> HasSuffix ''a/y'' ''.test''"
    by (simp add: HasSuffix_def)
  have p: "[stand_in ''a/y_test'', stand_in ''a/y'', stand_in ''a/y.test''] \<noteq> [] \<and>
       (\<forall>pkg \<in> set [stand_in ''a/y_test'', stand_in ''a/y'', stand_in ''a/y.test''].
          PkgPath pkg = ''a/y'' \<or> PkgPath pkg = ''a/y'' @ ''_test'' \<or> PkgPath pkg = ''a/y'' @ ''.test'')"
    by (simp add: stand_in_def)
  have c: "UniquePackagePaths [stand_in ''a/y_test'', stand_in ''a/y'', stand_in ''a/y.test''] = [''a/y'']"
    using UniquePackagePaths_folds_sorts_dedups[of "[stand_in ''a/y_test'', stand_in ''a/y'', stand_in ''a/y.test'']" "''a/y''"]
      h p by blast
  have e: "UniquePackagePaths (map stand_in [''b/x'', ''a/y_test'', ''a/y'', ''b/x'', ''a'']) = [''a'', ''a/y'', ''b/x'']"
    by code_simp
  have p2: "[stand_in ''x_test_test'', stand_in ''x_test.test''] \<noteq> [] \<and>
       (\<forall>pkg \<in> set [stand_in ''x_test_test'', stand_in ''x_test.test''].
          PkgPath pkg = ''x_test'' @ ''_test'' \<or> PkgPath pkg = ''x_test'' @ ''.test'')"
    by (simp add: stand_in_def)
  have c2: "UniquePackagePaths [stand_in ''x_test_test'', stand_in ''x_test.test''] = [''x_test'']"
    using UniquePackagePaths_folds_sorts_dedups[of "[stand_in ''x_test_test'', stand_in ''x_test.test'']" "''x_test''"]
      p2 by blast
  have s: "HasSuffix ''x_test'' ''_test''" by (simp add: HasSuffix_def)
  have m: "stand_in ''x_test'' \<in> set [stand_in ''x_test'', stand_in ''x_test_test'']"
    and pp: "PkgPath (stand_in ''x_test'') = ''x_test''"
    by (simp_all add: stand_in_def)
  have n: "UniquePackagePaths [stand_in ''x_test'', stand_in ''x_test_test''] \<noteq> [''x_test'']"
    using UniquePackagePaths_folds_sorts_dedups[of "[stand_in ''x_test'', stand_in ''x_test_test'']" "''x_test''"]
      s m pp by blast
  from h have h1: "\<not> HasSuffix ''a/y'' ''_test''" and h2: "\<not> HasSuffix ''a/y'' ''.test''" by simp_all
  show ?thesis
    by (rule conjI[OF h1 conjI[OF h2 conjI[OF c conjI[OF e conjI[OF c2 conjI[OF s n]]]]]])
qed

text \<open>
  Claim C7 as stated, for every base path, fails: the base path \<^verbatim>\<open>x_test\<close> and its
  variant \<^verbatim>\<open>x_test_test\<close> give two entries, \<^verbatim>\<open>x\<close> and \<^verbatim>\<open>x_test\<close>; and a package whose own
  name ends in \<^verbatim>\<open>_test\<close> is listed under the shortened path.
\<close>

theorem suffixed_base_path_is_folded_too:
  "HasSuffix ''x_test'' ''_test'' \<and>
   UniquePackagePaths [stand_in ''x_test'', stand_in (''x_test'' @ ''_test'')] = [''x'', ''x_test''] \<and>
   UniquePackagePaths [stand_in ''pkg/integration_test''] = [''pkg/integration'']"
proof -
  have 1: "HasSuffix ''x_test'' ''_test''" by (simp add: HasSuffix_def)
  have 2: "UniquePackagePaths [stand_in ''x_test'', stand_in (''x_test'' @ ''_test'')] = [''x'', ''x_test'']"
    by code_simp
  have 3: "UniquePackagePaths [stand_in ''pkg/integration_test''] = [''pkg/integration'']"
    by code_simp
  show ?thesis by (rule conjI[OF 1 conjI[OF 2 3]])
qed

section \<open>The JSON round trip\<close>

subsection \<open>mapify and the decoding of dependencies\<close>

lemma map_of_mapify_fold:
  "distinct (map fst deps) \<Longrightarrow>
   map_of (fold (\<lambda>(key, ps). AList.update key (UniquePackagePaths ps)) deps acc) k =
     (case map_of deps k of Some ps \<Rightarrow> Some (UniquePackagePaths ps) | None \<Rightarrow> map_of acc k)"
proof (induction deps arbitrary: acc)
  case Nil
  then show ?case by simp
next
  case (Cons x deps)
  obtain k0 ps0 where x: "x = (k0, ps0)" by (cases x)
  from Cons.prems x have d: "distinct (map fst deps)" and fresh: "map_of deps k0 = None"
    by (auto simp: map_of_eq_None_iff)
  show ?case
    using Cons.IH[OF d, of "AList.update k0 (UniquePackagePaths ps0) acc"] fresh
    by (auto simp: x AList.update_conv' split: option.splits)
qed

lemma map_of_mapify:
  "distinct (map fst deps) \<Longrightarrow> map_of (mapify deps) k = map_option UniquePackagePaths (map_of deps k)"
  by (simp add: mapify_def map_of_mapify_fold split: option.splits)

lemma distinct_mapify_fold:
  "distinct (map fst acc) \<Longrightarrow>
   distinct (map fst (fold (\<lambda>(key, ps). AList.update key (UniquePackagePaths ps)) deps acc))"
  by (induction deps arbitrary: acc) (auto simp: AList.distinct_update)

lemma distinct_mapify: "distinct (map fst (mapify deps))"
  by (simp add: mapify_def distinct_mapify_fold)

lemma map_of_append_dependencies:
  "map_of (fold (append_dependency k0) v deps) k =
     (if k = k0 \<and> v \<noteq> []
      then Some ((case map_of deps k0 of None \<Rightarrow> [] | Some ps \<Rightarrow> ps) @ map stand_in v)
      else map_of deps k)"
proof (induction v arbitrary: deps)
  case Nil
  then show ?case by simp
next
  case (Cons vv v)
  show ?case
    by (simp add: Cons.IH) (simp add: append_dependency_def AList.update_conv')
qed

lemma map_of_unmarshal_fold:
  "distinct (map fst sdeps) \<Longrightarrow> (\<forall>k \<in> fst ` set sdeps. map_of acc k = None) \<Longrightarrow>
   map_of (fold (\<lambda>(k, v) deps. fold (append_dependency k) v deps) sdeps acc) k =
     (case map_of sdeps k of
        None \<Rightarrow> map_of acc k
      | Some v \<Rightarrow> if v = [] then map_of acc k else Some (map stand_in v))"
proof (induction sdeps arbitrary: acc)
  case Nil
  then show ?case by simp
next
  case (Cons x sdeps)
  obtain k0 v0 where x: "x = (k0, v0)" by (cases x)
  let ?acc = "fold (append_dependency k0) v0 acc"
  from Cons.prems(1) x have d: "distinct (map fst sdeps)" and fresh: "map_of sdeps k0 = None"
    and notin: "k0 \<notin> fst ` set sdeps"
    by (auto simp: map_of_eq_None_iff)
  from Cons.prems(2) x have a0: "map_of acc k0 = None" by simp
  have f: "\<forall>k \<in> fst ` set sdeps. map_of ?acc k = None"
    using Cons.prems(2) notin x by (auto simp: map_of_append_dependencies)
  have "fold (\<lambda>(k, v) deps. fold (append_dependency k) v deps) (x # sdeps) acc =
        fold (\<lambda>(k, v) deps. fold (append_dependency k) v deps) sdeps ?acc"
    by (simp add: x)
  then show ?case
    using Cons.IH[OF d f] fresh a0
    by (auto simp: x map_of_append_dependencies split: option.splits)
qed

lemma map_of_unmarshal_dependencies:
  "distinct (map fst sdeps) \<Longrightarrow>
   map_of (unmarshal_dependencies sdeps) k =
     (case map_of sdeps k of None \<Rightarrow> None | Some v \<Rightarrow> if v = [] then None else Some (map stand_in v))"
  by (simp add: unmarshal_dependencies_def map_of_unmarshal_fold split: option.splits)

lemma PkgPath_stand_in [simp]: "map PkgPath (map stand_in vs) = vs"
  by (induction vs) (simp_all add: stand_in_def)

lemma PkgPath_comp_stand_in [simp]: "map (PkgPath \<circ> stand_in) vs = vs"
  by (induction vs) (simp_all add: stand_in_def)

lemma stand_in_PkgPath [simp]: "stand_in (PkgPath (stand_in v)) = stand_in v"
  by (simp add: stand_in_def)

lemma UniquePackagePaths_Nil_iff: "UniquePackagePaths ps = [] \<longleftrightarrow> ps = []"
  using set_UniquePackagePaths[of ps] by (metis image_is_empty set_empty)


subsection \<open>The round trip\<close>

text \<open>
  Claim C8, amended. With a JSON codec that decodes what it encoded, encoding a value
  with \<^verbatim>\<open>MarshalJSON\<close> and decoding into a new value with \<^verbatim>\<open>UnmarshalJSON\<close> gives stand-ins
  that carry a path only, whose paths are: in \<^verbatim>\<open>changes\<close> and \<^verbatim>\<open>all_changes\<close> the sorted,
  deduplicated keys of the original paths (test suffixes removed); in \<^verbatim>\<open>dependencies\<close>,
  under each original key whose list is not empty, the same of that list, and no entry
  for a key whose list is empty. Where no path of \<^verbatim>\<open>changes\<close> (of \<^verbatim>\<open>all_changes\<close>) ends in a
  test suffix, the set of its paths is reproduced.
\<close>

theorem JSONRoundtrip_reproduces_folded_paths:
  assumes keys: "distinct (map fst (P_Dependencies p))"
    and enc: "json_Marshal (to_packagesJSON p) = Inr b"
    and dec: "json_Unmarshal b = Inr (Some (to_packagesJSON p))"
  shows "\<exists>p'. JSONRoundtrip json_Marshal json_Unmarshal p = Inr p' \<and>
           map PkgPath (Changes p') = UniquePackagePaths (Changes p) \<and>
           map PkgPath (AllChanges p') = UniquePackagePaths (AllChanges p) \<and>
           (\<forall>k. map_option (map PkgPath) (map_of (P_Dependencies p') k) =
                  (case map_of (P_Dependencies p) k of
                     None \<Rightarrow> None
                   | Some ps \<Rightarrow> if ps = [] then None else Some (UniquePackagePaths ps))) \<and>
           (\<forall>x \<in> set (Changes p') \<union> set (AllChanges p'). x = stand_in (PkgPath x)) \<and>
           (\<forall>k ps. map_of (P_Dependencies p') k = Some ps \<longrightarrow> (\<forall>x \<in> set ps. x = stand_in (PkgPath x))) \<and>
           ((\<forall>x \<in> set (Changes p). path_key (PkgPath x) = PkgPath x) \<longrightarrow>
              PkgPath ` set (Changes p') = PkgPath ` set (Changes p)) \<and>
           ((\<forall>x \<in> set (AllChanges p). path_key (PkgPath x) = PkgPath x) \<longrightarrow>
              PkgPath ` set (AllChanges p') = PkgPath ` set (AllChanges p))"
proof -
  let ?p' = "\<lparr>P_Dependencies = unmarshal_dependencies (mapify (P_Dependencies p)),
              Changes = map stand_in (UniquePackagePaths (Changes p)),
              AllChanges = map stand_in (UniquePackagePaths (AllChanges p))\<rparr>"
  have rt: "JSONRoundtrip json_Marshal json_Unmarshal p = Inr ?p'"
    using enc dec
    by (simp add: JSONRoundtrip_def MarshalJSON_def UnmarshalJSON_def new_Packages_def to_packagesJSON_def)
  have deps: "map_of (unmarshal_dependencies (mapify (P_Dependencies p))) k =
      (case map_of (P_Dependencies p) k of
         None \<Rightarrow> None
       | Some ps \<Rightarrow> if ps = [] then None else Some (map stand_in (UniquePackagePaths ps)))" for k
    by (simp add: map_of_unmarshal_dependencies[OF distinct_mapify] map_of_mapify[OF keys]
        UniquePackagePaths_Nil_iff split: option.splits)
  have d1: "map_option (map PkgPath) (map_of (unmarshal_dependencies (mapify (P_Dependencies p))) k) =
                  (case map_of (P_Dependencies p) k of
                     None \<Rightarrow> None
                   | Some ps \<Rightarrow> if ps = [] then None else Some (UniquePackagePaths ps))" for k
    unfolding deps by (simp split: option.splits)
  have d2: "\<forall>x \<in> set ps. x = stand_in (PkgPath x)"
    if "map_of (unmarshal_dependencies (mapify (P_Dependencies p))) k = Some ps" for k ps
    using that unfolding deps by (auto split: option.splits if_splits)
  have s1: "\<forall>x \<in> set (map stand_in vs) \<union> set (map stand_in ws). x = stand_in (PkgPath x)" for vs ws
    by auto
  have c1: "PkgPath ` set (map stand_in (UniquePackagePaths l)) = PkgPath ` set l"
    if "\<forall>x \<in> set l. path_key (PkgPath x) = PkgPath x" for l
  proof -
    have "PkgPath ` set (map stand_in (UniquePackagePaths l)) = set (UniquePackagePaths l)"
      by (metis PkgPath_stand_in set_map)
    also have "\<dots> = (\<lambda>pkg. path_key (PkgPath pkg)) ` set l" by (rule set_UniquePackagePaths)
    also have "\<dots> = PkgPath ` set l" using that by (intro image_cong) simp_all
    finally show ?thesis .
  qed
  show ?thesis
  proof (intro exI[of _ ?p'] conjI allI impI)
    show "JSONRoundtrip json_Marshal json_Unmarshal p = Inr ?p'" by (rule rt)
    show "map PkgPath (Changes ?p') = UniquePackagePaths (Changes p)" by simp
    show "map PkgPath (AllChanges ?p') = UniquePackagePaths (AllChanges p)" by simp
    show "map_option (map PkgPath) (map_of (P_Dependencies ?p') k) =
                  (case map_of (P_Dependencies p) k of
                     None \<Rightarrow> None
                   | Some ps \<Rightarrow> if ps = [] then None else Some (UniquePackagePaths ps))" for k
      using d1[of k] by simp
    show "\<forall>x \<in> set (Changes ?p') \<union> set (AllChanges ?p'). x = stand_in (PkgPath x)"
      using s1 by simp
    show "\<forall>x \<in> set ps. x = stand_in (PkgPath x)" if "map_of (P_Dependencies ?p') k = Some ps" for k ps
      using that d2[of k ps] by simp
    show "PkgPath ` set (Changes ?p') = PkgPath ` set (Changes p)"
      if "\<forall>x \<in> set (Changes p). path_key (PkgPath x) = PkgPath x"
      using c1[OF that] by simp
    show "PkgPath ` set (AllChanges ?p') = PkgPath ` set (AllChanges p)"
      if "\<forall>x \<in> set (AllChanges p). path_key (PkgPath x) = PkgPath x"
      using c1[OF that] by simp
  qed
qed

text \<open>
  Claim C8 as stated fails, even with the identity as codec: a result whose change is the
  external test package \<^verbatim>\<open>a_test\<close> comes back with the path \<^verbatim>\<open>a\<close>, and its dependencies
  entry with an empty list is gone.
\<close>

theorem JSONRoundtrip_changes_suffixed_paths:
  "JSONRoundtrip Inr (\<lambda>b. Inr (Some b)) external_test_change = Inr external_test_change_decoded \<and>
   PkgPath ` set (Changes external_test_change_decoded) \<noteq> PkgPath ` set (Changes external_test_change) \<and>
   PkgPath ` set (AllChanges external_test_change_decoded) \<noteq>
     PkgPath ` set (AllChanges external_test_change) \<and>
   map_of (P_Dependencies external_test_change) ''a_test'' = Some [] \<and>
   map_of (P_Dependencies external_test_change_decoded) ''a_test'' = None"
proof -
  have 1: "JSONRoundtrip Inr (\<lambda>b. Inr (Some b)) external_test_change = Inr external_test_change_decoded"
    by code_simp
  have 2: "PkgPath ` set (Changes external_test_change_decoded) \<noteq>
      PkgPath ` set (Changes external_test_change)"
    by (simp add: external_test_change_def external_test_change_decoded_def stand_in_def)
  have 3: "PkgPath ` set (AllChanges external_test_change_decoded) \<noteq>
      PkgPath ` set (AllChanges external_test_change)"
    by (simp add: external_test_change_def external_test_change_decoded_def stand_in_def)
  have 4: "map_of (P_Dependencies external_test_change) ''a_test'' = Some []"
    by (simp add: external_test_change_def)
  have 5: "map_of (P_Dependencies external_test_change_decoded) ''a_test'' = None"
    by (simp add: external_test_change_decoded_def)
  show ?thesis by (rule conjI[OF 1 conjI[OF 2 conjI[OF 3 conjI[OF 4 5]]]])
qed

theorem JSONRoundtrip_reproduces_folded_paths_witness:
  "distinct (map fst (P_Dependencies roundtrip_test_value)) \<and>
   (Inr :: packagesJSON \<Rightarrow> string + packagesJSON) (to_packagesJSON roundtrip_test_value) =
     Inr (to_packagesJSON roundtrip_test_value) \<and>
   JSONRoundtrip Inr (\<lambda>b. Inr (Some b)) roundtrip_test_value = Inr roundtrip_test_value \<and>
   (\<exists>p'. JSONRoundtrip Inr (\<lambda>b. Inr (Some b)) roundtrip_test_value = Inr p' \<and>
      map PkgPath (Changes p') = UniquePackagePaths (Changes roundtrip_test_value))"
proof -
  have k: "distinct (map fst (P_Dependencies roundtrip_test_value))"
    by (simp add: roundtrip_test_value_def)
  have e: "(Inr :: packagesJSON \<Rightarrow> string + packagesJSON) (to_packagesJSON roundtrip_test_value) =
     Inr (to_packagesJSON roundtrip_test_value)" by (rule refl)
  have r: "JSONRoundtrip Inr (\<lambda>b. Inr (Some b)) roundtrip_test_value = Inr roundtrip_test_value"
    by code_simp
  have d: "(\<lambda>b. Inr (Some b) :: string + packagesJSON option) (to_packagesJSON roundtrip_test_value) =
     Inr (Some (to_packagesJSON roundtrip_test_value))" by simp
  from JSONRoundtrip_reproduces_folded_paths[where json_Marshal = Inr
      and json_Unmarshal = "\<lambda>b. Inr (Some b)"
      and p = roundtrip_test_value and b = "to_packagesJSON roundtrip_test_value", OF k e d]
  have x: "\<exists>p'. JSONRoundtrip Inr (\<lambda>b. Inr (Some b)) roundtrip_test_value = Inr p' \<and>
      map PkgPath (Changes p') = UniquePackagePaths (Changes roundtrip_test_value)"
    by (elim exE conjE) (intro exI conjI, assumption+)
  show ?thesis by (rule conjI[OF k conjI[OF e conjI[OF r x]]])
qed

end
